theory Spec2Isabelle
  imports Complex_Main
begin

section \<open>Common data: errors, representations, the random source\<close>

text \<open>
  The connectors of \<^verbatim>\<open>brainpy/connect/random_conn.py\<close> are embedded as HOL functions.
  Every exception of the source is a value of \<open>error\<close>; a builder returns
  \<open>error + conn_repr\<close> (\<open>Inl\<close> the exception).
\<close>

datatype error =
    AssertionError
  | ConnectorError
  | IndexError
  | TypeError
  | ValueError
  | NotImplementedError

text \<open>
  The tagged results of \<^verbatim>\<open>build_conn\<close>: \<^verbatim>\<open>('csr', (ind, indptr))\<close>,
  \<^verbatim>\<open>('ij', (pre_ids, post_ids))\<close> and \<^verbatim>\<open>('mat', conn)\<close>.
\<close>

datatype conn_repr =
    CSR "nat list" "nat list"
  | IJ "nat list" "nat list"
  | MAT "bool list list"

text \<open>
  Modelled from the spec: the RNG Source (\<^verbatim>\<open>np.random.RandomState\<close>, numba's
  \<^verbatim>\<open>np.random\<close>) is an external collaborator, absent from the sources. A generator
  is the stream of uniform draws it will deliver; drawing returns the head and the
  shifted stream. The spec says the draws are uniform floats; numpy documents the
  half-open interval \<open>[0, 1)\<close>, which is \<open>uniform\<close>.
\<close>

type_synonym rng = "nat \<Rightarrow> real"

definition uniform :: "rng \<Rightarrow> bool" where
  "uniform g = (\<forall>n. 0 \<le> g n \<and> g n < 1)"

definition advance :: "nat \<Rightarrow> rng \<Rightarrow> rng" where
  "advance k g = (\<lambda>n. g (n + k))"

definition random :: "rng \<Rightarrow> real \<times> rng" where
  "random g = (g 0, advance 1 g)"

definition random_n :: "nat \<Rightarrow> rng \<Rightarrow> real list \<times> rng" where
  "random_n n g = (map g [0..<n], advance n g)"

definition randint :: "int \<Rightarrow> int \<Rightarrow> rng \<Rightarrow> int \<times> rng" where
  "randint lo hi g = (lo + \<lfloor>g 0 * real_of_int (hi - lo)\<rfloor>, advance 1 g)"

definition choice :: "nat list \<Rightarrow> rng \<Rightarrow> nat \<times> rng" where
  "choice seq g = (seq ! nat \<lfloor>g 0 * real (length seq)\<rfloor>, advance 1 g)"

text \<open>
  The process the connector runs in. \<^verbatim>\<open>SUPPORT_NUMBA\<close> and \<^verbatim>\<open>numba_seed\<close> live in
  \<^verbatim>\<open>brainpy/tools/others.py\<close>, which is not among the sources, so the flag is a
  parameter. \<open>np_seeded s\<close> is the stream of \<^verbatim>\<open>RandomState(s)\<close>, \<open>numba_seeded s\<close> the
  stream of numba's generator after \<^verbatim>\<open>numba_seed(s)\<close>, and \<open>global_np\<close> the state of
  numpy's process-wide generator \<^verbatim>\<open>np.random\<close>, which no connector seeds when numba is
  absent.
\<close>

record env =
  support_numba :: bool
  np_seeded :: "int \<Rightarrow> rng"
  numba_seeded :: "int \<Rightarrow> rng"
  global_np :: rng

definition uniform_env :: "env \<Rightarrow> bool" where
  "uniform_env e = ((\<forall>s. uniform (np_seeded e s)) \<and> (\<forall>s. uniform (numba_seeded e s))
     \<and> uniform (global_np e))"

text \<open>\<^verbatim>\<open>np.where(p)[0]\<close>: the indices of the true entries, ascending.\<close>

definition where_true :: "bool list \<Rightarrow> nat list" where
  "where_true p = filter (\<lambda>i. p ! i) [0..<length p]"

text \<open>\<^verbatim>\<open>np.concatenate(([0], count)).cumsum()\<close>.\<close>

fun cumsum_from :: "nat \<Rightarrow> nat list \<Rightarrow> nat list" where
  "cumsum_from acc [] = []"
| "cumsum_from acc (x # xs) = (acc + x) # cumsum_from (acc + x) xs"

definition indptr_of :: "nat list \<Rightarrow> nat list" where
  "indptr_of count = cumsum_from 0 (0 # count)"

section \<open>FixedProb\<close>

record fixed_prob =
  fp_prob :: real
  fp_pre_ratio :: real
  fp_include_self :: bool
  fp_seed :: int

text \<open>
  \<^verbatim>\<open>FixedProb.__init__\<close>: the only check is \<^verbatim>\<open>assert 0. <= prob <= 1.\<close>; the value is
  stored as given.
\<close>

definition FixedProb_init :: "real \<Rightarrow> real \<Rightarrow> bool \<Rightarrow> int \<Rightarrow> error + fixed_prob" where
  "FixedProb_init prob pre_ratio include_self seed =
     (if 0 \<le> prob \<and> prob \<le> 1
      then Inr \<lparr>fp_prob = prob, fp_pre_ratio = pre_ratio,
                fp_include_self = include_self, fp_seed = seed\<rparr>
      else Inl AssertionError)"

text \<open>
  The inner \<^verbatim>\<open>f_connect(pre_i, num_post)\<close> of \<^verbatim>\<open>FixedProb.build_conn\<close>: one draw
  decides whether the pre-index takes part (\<^verbatim>\<open>None\<close> otherwise), then \<^verbatim>\<open>num_post\<close>
  draws are tested with \<^verbatim>\<open><= prob\<close>.
\<close>

definition f_connect :: "fixed_prob \<Rightarrow> nat \<Rightarrow> nat \<Rightarrow> rng \<Rightarrow> nat list option \<times> rng" where
  "f_connect c pre_i num_post g =
     (case random g of (u, g1) \<Rightarrow>
        if u < fp_pre_ratio c
        then (case random_n num_post g1 of (us, g2) \<Rightarrow>
                (let p = map (\<lambda>x. x \<le> fp_prob c) us;
                     p' = (if \<not> fp_include_self c \<and> pre_i < num_post
                           then p[pre_i := False] else p)
                 in (Some (where_true p'), g2)))
        else (None, g1))"

text \<open>
  The loop \<^verbatim>\<open>for i in range(self.pre_num)\<close>: it collects the rows that are not
  \<^verbatim>\<open>None\<close> in \<^verbatim>\<open>ind\<close> and their lengths in \<^verbatim>\<open>count\<close> (zero where the row is
  \<^verbatim>\<open>None\<close>).
\<close>

fun fp_rows :: "fixed_prob \<Rightarrow> nat \<Rightarrow> nat list \<Rightarrow> rng \<Rightarrow> nat list list \<times> nat list" where
  "fp_rows c num_post [] g = ([], [])"
| "fp_rows c num_post (i # is) g =
     (case f_connect c i num_post g of (r, g') \<Rightarrow>
        (case fp_rows c num_post is g' of (ind, count) \<Rightarrow>
           (case r of None \<Rightarrow> (ind, 0 # count)
                    | Some posts \<Rightarrow> (posts # ind, length posts # count))))"

definition FixedProb_build_conn :: "fixed_prob \<Rightarrow> nat \<Rightarrow> nat \<Rightarrow> env \<Rightarrow> error + conn_repr" where
  "FixedProb_build_conn c pre_num post_num e =
     (let rng = (if support_numba e then numba_seeded e (fp_seed c)
                 else np_seeded e (fp_seed c))
      in case fp_rows c post_num [0..<pre_num] rng of
           (ind, count) \<Rightarrow> Inr (CSR (concat ind) (indptr_of count)))"

text \<open>
  \<^verbatim>\<open>FixedProb.build_mat\<close>: \<^verbatim>\<open>pre_num\<close> draws for \<^verbatim>\<open>pre_state\<close>, then
  \<^verbatim>\<open>pre_num * post_num\<close> draws in row-major order tested with \<^verbatim>\<open>< prob\<close>, from the
  connector's own generator; \<^verbatim>\<open>fill_diagonal\<close> writes the entries \<open>[i, i]\<close> that
  exist.
\<close>

definition fill_diagonal :: "bool list list \<Rightarrow> bool \<Rightarrow> bool list list" where
  "fill_diagonal mat b =
     map (\<lambda>i. if i < length (mat ! i) then (mat ! i)[i := b] else mat ! i) [0..<length mat]"

definition FixedProb_build_mat :: "fixed_prob \<Rightarrow> nat \<Rightarrow> nat \<Rightarrow> env \<Rightarrow> bool list list" where
  "FixedProb_build_mat c pre_num post_num e =
     (case random_n pre_num (np_seeded e (fp_seed c)) of (ps, g1) \<Rightarrow>
        (case random_n (pre_num * post_num) g1 of (us, g2) \<Rightarrow>
           (let mat = map (\<lambda>i. map (\<lambda>j. us ! (i * post_num + j) < fp_prob c
                                          \<and> ps ! i < fp_pre_ratio c) [0..<post_num])
                          [0..<pre_num]
            in if \<not> fp_include_self c then fill_diagonal mat False else mat)))"

text \<open>The edges a representation encodes, as a set of (pre, post) pairs.\<close>

definition csr_row :: "nat list \<Rightarrow> nat list \<Rightarrow> nat \<Rightarrow> nat list" where
  "csr_row ind indptr i = take (indptr ! Suc i - indptr ! i) (drop (indptr ! i) ind)"

section \<open>FixedNum, FixedPreNum, FixedPostNum\<close>

text \<open>
  \<^verbatim>\<open>num\<close> is an \<^verbatim>\<open>int\<close> (an exact count) or a \<^verbatim>\<open>float\<close> (a fraction); any other
  type is refused by \<^verbatim>\<open>FixedNum.__init__\<close> with a \<open>ConnectorError\<close>.
\<close>

datatype num_param = IntNum int | FloatNum real | OtherNum

record fixed_num =
  fn_num :: num_param
  fn_include_self :: bool
  fn_seed :: int

definition FixedNum_init :: "num_param \<Rightarrow> bool \<Rightarrow> int \<Rightarrow> error + fixed_num" where
  "FixedNum_init num include_self seed =
     (case num of
        IntNum n \<Rightarrow>
          if n \<ge> 0 then Inr \<lparr>fn_num = num, fn_include_self = include_self, fn_seed = seed\<rparr>
          else Inl AssertionError
      | FloatNum x \<Rightarrow>
          if 0 \<le> x \<and> x \<le> 1
          then Inr \<lparr>fn_num = num, fn_include_self = include_self, fn_seed = seed\<rparr>
          else Inl AssertionError
      | OtherNum \<Rightarrow> Inl ConnectorError)"

text \<open>
  \<^verbatim>\<open>np.argsort(prob)\<close>: the indices of \<open>prob\<close> ordered by their values. numpy's default
  sort does not promise an order among equal values; the model takes the stable one. The
  properties below use only that the result is a permutation of the indices.
\<close>

definition argsort :: "real list \<Rightarrow> nat list" where
  "argsort xs = sort_key (\<lambda>i. xs ! i) [0..<length xs]"

text \<open>
  \<^verbatim>\<open>_fixed_num_prob(num_need, num_total, i)\<close>: \<^verbatim>\<open>num_total\<close> draws, the write
  \<^verbatim>\<open>prob[i] = 1.\<close> under the guard \<^verbatim>\<open>not include_self and i <= num_total\<close>, then the
  first \<^verbatim>\<open>num_need\<close> indices of the ranking. The write is an index assignment into an
  array of length \<^verbatim>\<open>num_total\<close>: at \<open>i = num_total\<close> Python raises \<open>IndexError\<close>
  (\<open>i\<close> comes from \<^verbatim>\<open>range\<close>, so it is never negative). Compiled by numba the
  same write is an unchecked store one element past the array; the model follows
  Python.
\<close>

definition fixed_num_prob ::
  "bool \<Rightarrow> nat \<Rightarrow> nat \<Rightarrow> nat \<Rightarrow> rng \<Rightarrow> error + (nat list \<times> rng)" where
  "fixed_num_prob include_self num_need num_total i g =
     (case random_n num_total g of (prob, g') \<Rightarrow>
        if \<not> include_self \<and> i \<le> num_total
        then (if i < length prob
              then Inr (take num_need (argsort (prob[i := 1])), g')
              else Inl IndexError)
        else Inr (take num_need (argsort prob), g'))"

text \<open>The loop over the rows: it stops at the first exception.\<close>

fun connect_rows ::
  "(nat \<Rightarrow> rng \<Rightarrow> error + (nat list \<times> rng)) \<Rightarrow> nat list \<Rightarrow> rng \<Rightarrow> error + nat list list" where
  "connect_rows f [] g = Inr []"
| "connect_rows f (i # is) g =
     (case f i g of
        Inl e \<Rightarrow> Inl e
      | Inr (row, g') \<Rightarrow>
          (case connect_rows f is g' of
             Inl e \<Rightarrow> Inl e
           | Inr rows \<Rightarrow> Inr (row # rows)))"

text \<open>
  The check at the head of both builders: an integer \<^verbatim>\<open>num\<close> must lie in
  \<open>[0, total]\<close>, a fraction in \<open>[0, 1]\<close> and is scaled with \<^verbatim>\<open>int(total * num)\<close>.
  A \<^verbatim>\<open>num\<close> of another type never reaches a builder (\<^verbatim>\<open>__init__\<close> refuses it); the
  model lets the range assertion fail for it.
\<close>

definition check_num :: "num_param \<Rightarrow> nat \<Rightarrow> error + nat" where
  "check_num num num_total =
     (case num of
        IntNum n \<Rightarrow> if 0 \<le> n \<and> n \<le> int num_total then Inr (nat n) else Inl AssertionError
      | FloatNum x \<Rightarrow> if 0 \<le> x \<and> x \<le> 1 then Inr (nat \<lfloor>real num_total * x\<rfloor>)
                      else Inl AssertionError
      | OtherNum \<Rightarrow> Inl AssertionError)"

text \<open>
  The generator the jitted helper draws from after \<^verbatim>\<open>self.seed = self.rng.randint(1,
  int(1e7)); numba_seed(self.seed)\<close>: numba's generator seeded with the new seed, or
  the connector's own generator, one draw further.
\<close>

definition reseed :: "env \<Rightarrow> int \<Rightarrow> rng" where
  "reseed e seed =
     (case randint 1 10000000 (np_seeded e seed) of (s, g1) \<Rightarrow>
        if support_numba e then numba_seeded e s else g1)"

definition FixedPreNum_build_conn :: "fixed_num \<Rightarrow> nat \<Rightarrow> nat \<Rightarrow> env \<Rightarrow> error + conn_repr" where
  "FixedPreNum_build_conn c pre_num post_num e =
     (case check_num (fn_num c) pre_num of
        Inl err \<Rightarrow> Inl err
      | Inr num \<Rightarrow>
          (case connect_rows (fixed_num_prob (fn_include_self c) num pre_num)
                  [0..<post_num] (reseed e (fn_seed c)) of
             Inl err \<Rightarrow> Inl err
           | Inr pre_ids \<Rightarrow>
               Inr (IJ (concat pre_ids)
                       (concat (map (\<lambda>j. replicate num j) [0..<post_num])))))"

text \<open>
  \<^verbatim>\<open>FixedPostNum.build_conn\<close>; \<^verbatim>\<open>np.concatenate\<close> of an empty list of rows is a
  \<open>ValueError\<close> (this builder has no guard for it).
\<close>

definition FixedPostNum_build_conn :: "fixed_num \<Rightarrow> nat \<Rightarrow> nat \<Rightarrow> env \<Rightarrow> error + conn_repr" where
  "FixedPostNum_build_conn c pre_num post_num e =
     (case check_num (fn_num c) post_num of
        Inl err \<Rightarrow> Inl err
      | Inr num \<Rightarrow>
          (case connect_rows (fixed_num_prob (fn_include_self c) num post_num)
                  [0..<pre_num] (reseed e (fn_seed c)) of
             Inl err \<Rightarrow> Inl err
           | Inr post_ids \<Rightarrow>
               if post_ids = [] then Inl ValueError
               else Inr (CSR (concat post_ids) (indptr_of (replicate pre_num num)))))"

section \<open>Dense matrices\<close>

type_synonym mat = "bool list list"

definition zeros :: "nat \<Rightarrow> nat \<Rightarrow> mat" where
  "zeros r c = replicate r (replicate c False)"

definition ones :: "nat \<Rightarrow> nat \<Rightarrow> mat" where
  "ones r c = replicate r (replicate c True)"

text \<open>
  \<^verbatim>\<open>conn[u, v] = b\<close> with non-negative indices; numpy raises \<open>IndexError\<close> out of
  range.
\<close>

definition mat_set :: "mat \<Rightarrow> nat \<Rightarrow> nat \<Rightarrow> bool \<Rightarrow> error + mat" where
  "mat_set conn u v b =
     (if u < length conn \<and> v < length (conn ! u)
      then Inr (conn[u := (conn ! u)[v := b]])
      else Inl IndexError)"

text \<open>
  \<^verbatim>\<open>conn[us, vs] = b\<close> with two index lists of equal length: one write per pair, in
  order.
\<close>

fun set_pairs :: "mat \<Rightarrow> (nat \<times> nat) list \<Rightarrow> bool \<Rightarrow> error + mat" where
  "set_pairs conn [] b = Inr conn"
| "set_pairs conn ((u, v) # ps) b =
     (case mat_set conn u v b of
        Inl e \<Rightarrow> Inl e
      | Inr conn' \<Rightarrow> set_pairs conn' ps b)"

text \<open>A sequence of single writes \<^verbatim>\<open>conn[u, v] = b\<close>.\<close>

fun set_cells :: "mat \<Rightarrow> (nat \<times> nat \<times> bool) list \<Rightarrow> error + mat" where
  "set_cells conn [] = Inr conn"
| "set_cells conn ((u, v, b) # ws) =
     (case mat_set conn u v b of
        Inl e \<Rightarrow> Inl e
      | Inr conn' \<Rightarrow> set_cells conn' ws)"

section \<open>SmallWorld\<close>

text \<open>
  The population shapes are the tuples the connector was called with (the case of a
  bare \<^verbatim>\<open>int\<close> shape is a one-axis tuple here).
\<close>

record small_world =
  sw_num_neighbor :: int
  sw_prob :: real
  sw_directed :: bool
  sw_include_self :: bool
  sw_seed :: int
  sw_pre_size :: "nat list"
  sw_post_size :: "nat list"

text \<open>
  The retry loop of \<^verbatim>\<open>_smallworld_rewire\<close>:
  \<^verbatim>\<open>while (not include_self) and w == i: w = rng.choice(non_connected)\<close>. Nothing
  bounds the number of retries, so not returning is the value \<open>None\<close>.
\<close>

partial_function (option) rewire_retry ::
  "bool \<Rightarrow> nat \<Rightarrow> nat list \<Rightarrow> nat \<Rightarrow> rng \<Rightarrow> (nat \<times> rng) option" where
  "rewire_retry include_self i non_connected w g =
     (if \<not> include_self \<and> w = i
      then (case choice non_connected g of (w', g') \<Rightarrow>
              rewire_retry include_self i non_connected w' g')
      else Some (w, g))"

declare rewire_retry.simps [code]

text \<open>
  \<^verbatim>\<open>_smallworld_rewire(i, all_j)\<close>: the new target \<open>w\<close>, or \<open>-1\<close> for "leave the edge".
\<close>

definition smallworld_rewire ::
  "real \<Rightarrow> bool \<Rightarrow> nat \<Rightarrow> bool list \<Rightarrow> rng \<Rightarrow> (int \<times> rng) option" where
  "smallworld_rewire prob include_self i all_j g =
     (case random g of (x, g1) \<Rightarrow>
        if x < prob
        then (let non_connected = where_true (map Not all_j)
              in if length non_connected \<le> 1 then Some (-1, g1)
                 else (case choice non_connected g1 of (w, g2) \<Rightarrow>
                         (case rewire_retry include_self i non_connected w g2 of
                            None \<Rightarrow> None
                          | Some (w', g3) \<Rightarrow> Some (int w', g3))))
        else Some (-1, g1))"

text \<open>\<^verbatim>\<open>np.concatenate([nodes[j:], nodes[0:j]])\<close>.\<close>

definition sw_targets :: "nat list \<Rightarrow> nat \<Rightarrow> nat list" where
  "sw_targets nodes j = drop j nodes @ take j nodes"

text \<open>The first loop over \<open>j\<close>: the ring lattice, written in both directions.\<close>

fun sw_lattice :: "nat list \<Rightarrow> nat list \<Rightarrow> mat \<Rightarrow> error + mat" where
  "sw_lattice nodes [] conn = Inr conn"
| "sw_lattice nodes (j # js) conn =
     (case set_pairs conn (zip nodes (sw_targets nodes j)) True of
        Inl e \<Rightarrow> Inl e
      | Inr conn1 \<Rightarrow>
          (case set_pairs conn1 (zip (sw_targets nodes j) nodes) True of
             Inl e \<Rightarrow> Inl e
           | Inr conn2 \<Rightarrow> sw_lattice nodes js conn2))"

text \<open>
  The inner loop \<^verbatim>\<open>for u, v in zip(nodes, targets)\<close> of the undirected branch. A result
  is \<open>None\<close> when a retry loop does not return, \<open>Some (Inl e)\<close> when an exception is
  raised.
\<close>

fun rewire_undirected ::
  "small_world \<Rightarrow> (nat \<times> nat) list \<Rightarrow> mat \<Rightarrow> rng \<Rightarrow> (error + mat \<times> rng) option" where
  "rewire_undirected c [] conn g = Some (Inr (conn, g))"
| "rewire_undirected c ((u, v) # ps) conn g =
     (if u < length conn
      then (case smallworld_rewire (sw_prob c) (sw_include_self c) u (conn ! u) g of
              None \<Rightarrow> None
            | Some (w, g') \<Rightarrow>
                if w = -1 then rewire_undirected c ps conn g'
                else (case set_cells conn
                             [(u, v, False), (v, u, False), (u, nat w, True), (nat w, u, True)] of
                        Inl e \<Rightarrow> Some (Inl e)
                      | Inr conn' \<Rightarrow> rewire_undirected c ps conn' g'))
      else Some (Inl IndexError))"

text \<open>
  The inner loop of the directed branch. Its first statement is
  \<^verbatim>\<open>self._connect(prob=self.prob, i=u, all_j=conn[u])\<close>, and \<^verbatim>\<open>_smallworld_rewire(i,
  all_j)\<close> has no parameter \<^verbatim>\<open>prob\<close>: the call raises \<open>TypeError\<close> at the first pair.
\<close>

definition rewire_directed ::
  "small_world \<Rightarrow> (nat \<times> nat) list \<Rightarrow> mat \<Rightarrow> rng \<Rightarrow> (error + mat \<times> rng) option" where
  "rewire_directed c ps conn g =
     (case ps of [] \<Rightarrow> Some (Inr (conn, g)) | p # ps' \<Rightarrow> Some (Inl TypeError))"

text \<open>The second loop over \<open>j\<close>: the rewiring.\<close>

fun sw_rewire_loop ::
  "small_world \<Rightarrow> nat list \<Rightarrow> nat list \<Rightarrow> mat \<Rightarrow> rng \<Rightarrow> (error + mat \<times> rng) option" where
  "sw_rewire_loop c nodes [] conn g = Some (Inr (conn, g))"
| "sw_rewire_loop c nodes (j # js) conn g =
     (case (if sw_directed c
            then rewire_directed c (zip nodes (sw_targets nodes j)) conn g
            else rewire_undirected c (zip nodes (sw_targets nodes j)) conn g) of
        None \<Rightarrow> None
      | Some (Inl e) \<Rightarrow> Some (Inl e)
      | Some (Inr (conn', g')) \<Rightarrow> sw_rewire_loop c nodes js conn' g')"

text \<open>\<^verbatim>\<open>range(1, self.num_neighbor // 2 + 1)\<close>.\<close>

definition sw_range :: "int \<Rightarrow> nat list" where
  "sw_range k = map nat [1..k div 2]"

definition SmallWorld_build_conn :: "small_world \<Rightarrow> env \<Rightarrow> (error + conn_repr) option" where
  "SmallWorld_build_conn c e =
     (if sw_pre_size c \<noteq> sw_post_size c then Some (Inl AssertionError)
      else if length (sw_pre_size c) = 1
      then (let num_node = prod_list (sw_pre_size c)
            in if sw_num_neighbor c > int num_node then Some (Inl ConnectorError)
               else if sw_num_neighbor c = int num_node
               then Some (Inr (MAT (ones num_node num_node)))
               else (case sw_lattice [0..<num_node] (sw_range (sw_num_neighbor c))
                            (zeros num_node num_node) of
                       Inl err \<Rightarrow> Some (Inl err)
                     | Inr conn \<Rightarrow>
                         (case sw_rewire_loop c [0..<num_node] (sw_range (sw_num_neighbor c))
                                 conn (reseed e (sw_seed c)) of
                            None \<Rightarrow> None
                          | Some (Inl err) \<Rightarrow> Some (Inl err)
                          | Some (Inr (conn', g')) \<Rightarrow> Some (Inr (MAT conn')))))
      else Some (Inl ConnectorError))"

text \<open>
  The ring lattice in the spec's words: node \<open>i\<close> is joined to
  \<open>{i - 2, i - 1, i + 1, i + 2} mod n\<close>.
\<close>

definition ring_lattice :: "nat \<Rightarrow> mat" where
  "ring_lattice n =
     map (\<lambda>i. map (\<lambda>j. j \<in> {(i + n - 2) mod n, (i + n - 1) mod n, (i + 1) mod n, (i + 2) mod n})
                [0..<n])
         [0..<n]"

section \<open>ProbDist\<close>

record prob_dist =
  pd_dist :: real
  pd_prob :: real
  pd_pre_ratio :: real
  pd_include_self :: bool
  pd_seed :: int
  pd_pre_size :: "nat list"
  pd_post_size :: "nat list"

text \<open>
  \<^verbatim>\<open>pos2ind(pos, size)\<close>: \<^verbatim>\<open>idx += p * np.prod(size[i + 1:])\<close> for each axis \<open>i\<close>.
\<close>

fun pos2ind :: "nat list \<Rightarrow> nat list \<Rightarrow> nat" where
  "pos2ind [] sz = 0"
| "pos2ind (p # ps) sz = p * prod_list (tl sz) + pos2ind ps (tl sz)"

text \<open>
  The coordinates \<^verbatim>\<open>pre_pos\<close> of the flat index \<open>i\<close> in \<^verbatim>\<open>build_conn\<close>: the
  \<^verbatim>\<open>meshgrid\<close> arrays, their first two axes swapped back by \<^verbatim>\<open>moveaxis\<close> and
  flattened, enumerate the positions of the shape in row-major order.
\<close>

fun unravel :: "nat list \<Rightarrow> nat \<Rightarrow> nat list" where
  "unravel [] i = []"
| "unravel (s # ss) i = (i div prod_list ss) # unravel ss (i mod prod_list ss)"

text \<open>
  The positions the nested loops \<^verbatim>\<open>for i in range(post_size[0]): for j in
  range(post_size[1]): ...\<close> visit, in their order (one loop per axis).
\<close>

fun all_pos :: "nat list \<Rightarrow> nat list list" where
  "all_pos [] = [[]]"
| "all_pos (s # ss) = concat (map (\<lambda>i. map ((#) i) (all_pos ss)) [0..<s])"

text \<open>
  \<^verbatim>\<open>normalized_pos\<close>: the pre-coordinates rescaled axis-wise by
  \<^verbatim>\<open>post_len / pre_len\<close>. Every \<^verbatim>\<open>_connect_*d\<close> computes it.
\<close>

definition normalized_pos :: "nat list \<Rightarrow> nat list \<Rightarrow> nat list \<Rightarrow> nat \<Rightarrow> real list" where
  "normalized_pos pre_pos pre_size post_size n_dim =
     map (\<lambda>i. real (pre_pos ! i) * real (post_size ! i) / real (pre_size ! i)) [0..<n_dim]"

text \<open>\<^verbatim>\<open>np.sum(np.abs(pre_pos - post_pos))\<close> on integer arrays.\<close>

definition manhattan :: "nat list \<Rightarrow> nat list \<Rightarrow> int" where
  "manhattan pre_pos post_pos = sum_list (map2 (\<lambda>a b. \<bar>int a - int b\<bar>) pre_pos post_pos)"

text \<open>\<^verbatim>\<open>np.sqrt(np.sum(np.square(pre_pos - post_pos)))\<close>.\<close>

definition euclid :: "nat list \<Rightarrow> nat list \<Rightarrow> real" where
  "euclid pre_pos post_pos =
     sqrt (real_of_int (sum_list (map2 (\<lambda>a b. (int a - int b)\<^sup>2) pre_pos post_pos)))"

text \<open>
  The state of the two generators a \<^verbatim>\<open>_connect_*d\<close> helper can draw from: \<open>rng\<close> of the
  closure (\<^verbatim>\<open>np.random if SUPPORT_NUMBA else self.rng\<close>) and numpy's process-wide
  generator. Under numba both names are numba's one generator.
\<close>

type_synonym gens = "rng \<times> rng"

definition rng_random :: "gens \<Rightarrow> real \<times> gens" where
  "rng_random st = (fst st 0, (advance 1 (fst st), snd st))"

definition np_random_random :: "bool \<Rightarrow> gens \<Rightarrow> real \<times> gens" where
  "np_random_random numba st =
     (if numba then (fst st 0, (advance 1 (fst st), snd st))
      else (snd st 0, (fst st, advance 1 (snd st))))"

text \<open>
  The scan of \<^verbatim>\<open>_connect_1d\<close> over the post-positions: the distance is taken between
  \<^verbatim>\<open>pre_pos\<close> and \<^verbatim>\<open>post_pos\<close>, the acceptance draw is \<^verbatim>\<open>rng.random()\<close>.
\<close>

fun scan_1d :: "prob_dist \<Rightarrow> nat list \<Rightarrow> nat list \<Rightarrow> gens \<Rightarrow> (nat list \<times> nat list) \<times> gens" where
  "scan_1d c pre_pos [] st = (([], []), st)"
| "scan_1d c pre_pos (i # is) st =
     (let post_pos = [i]; d = manhattan pre_pos post_pos
      in if real_of_int d \<le> pd_dist c
         then (if d = 0 \<and> \<not> pd_include_self c then scan_1d c pre_pos is st
               else (case rng_random st of (x, st1) \<Rightarrow>
                       if x \<le> pd_prob c
                       then (case scan_1d c pre_pos is st1 of ((pres, posts), st2) \<Rightarrow>
                               ((pos2ind pre_pos (pd_pre_size c) # pres,
                                 pos2ind post_pos (pd_post_size c) # posts), st2))
                       else scan_1d c pre_pos is st1))
         else scan_1d c pre_pos is st)"

definition connect_1d :: "prob_dist \<Rightarrow> nat list \<Rightarrow> nat \<Rightarrow> gens \<Rightarrow> (nat list \<times> nat list) \<times> gens" where
  "connect_1d c pre_pos n_dim st =
     (case rng_random st of (x, st1) \<Rightarrow>
        if x < pd_pre_ratio c
        then (let normalized = normalized_pos pre_pos (pd_pre_size c) (pd_post_size c) n_dim
              in scan_1d c pre_pos [0..<pd_post_size c ! 0] st1)
        else (([], []), st1))"

text \<open>
  The scan of \<^verbatim>\<open>_connect_2d\<close>, \<^verbatim>\<open>_connect_3d\<close> and \<^verbatim>\<open>_connect_4d\<close>, which differ
  only in the number of nested loops: Euclidean distance between \<^verbatim>\<open>pre_pos\<close> and
  \<^verbatim>\<open>post_pos\<close>, and the acceptance draw is \<^verbatim>\<open>np.random.random()\<close>.
\<close>

fun scan_nd ::
  "prob_dist \<Rightarrow> bool \<Rightarrow> nat list \<Rightarrow> nat list list \<Rightarrow> gens \<Rightarrow> (nat list \<times> nat list) \<times> gens" where
  "scan_nd c numba pre_pos [] st = (([], []), st)"
| "scan_nd c numba pre_pos (post_pos # rest) st =
     (let d = euclid pre_pos post_pos
      in if d \<le> pd_dist c
         then (if d = 0 \<and> \<not> pd_include_self c then scan_nd c numba pre_pos rest st
               else (case np_random_random numba st of (x, st1) \<Rightarrow>
                       if x \<le> pd_prob c
                       then (case scan_nd c numba pre_pos rest st1 of ((pres, posts), st2) \<Rightarrow>
                               ((pos2ind pre_pos (pd_pre_size c) # pres,
                                 pos2ind post_pos (pd_post_size c) # posts), st2))
                       else scan_nd c numba pre_pos rest st1))
         else scan_nd c numba pre_pos rest st)"

definition connect_nd ::
  "prob_dist \<Rightarrow> bool \<Rightarrow> nat list \<Rightarrow> nat \<Rightarrow> gens \<Rightarrow> (nat list \<times> nat list) \<times> gens" where
  "connect_nd c numba pre_pos n_dim st =
     (case rng_random st of (x, st1) \<Rightarrow>
        if x < pd_pre_ratio c
        then (let normalized = normalized_pos pre_pos (pd_pre_size c) (pd_post_size c) n_dim
              in scan_nd c numba pre_pos (all_pos (take n_dim (pd_post_size c))) st1)
        else (([], []), st1))"

text \<open>The loop \<^verbatim>\<open>for i in range(size)\<close> of \<^verbatim>\<open>ProbDist.build_conn\<close>.\<close>

fun pd_loop :: "prob_dist \<Rightarrow> bool \<Rightarrow> nat \<Rightarrow> nat list \<Rightarrow> gens \<Rightarrow> nat list \<times> nat list" where
  "pd_loop c numba n_dim [] st = ([], [])"
| "pd_loop c numba n_dim (i # is) st =
     (let pre_pos = unravel (pd_pre_size c) i
      in case (if n_dim = 1 then connect_1d c pre_pos n_dim st
               else connect_nd c numba pre_pos n_dim st) of
           ((pres, posts), st1) \<Rightarrow>
             (case pd_loop c numba n_dim is st1 of
                (connected_pres, connected_posts) \<Rightarrow>
                  (pres @ connected_pres, posts @ connected_posts)))"

definition ProbDist_build_conn :: "prob_dist \<Rightarrow> env \<Rightarrow> error + conn_repr" where
  "ProbDist_build_conn c e =
     (if length (pd_pre_size c) \<noteq> length (pd_post_size c) then Inl ValueError
      else (let n_dim = length (pd_pre_size c)
            in if n_dim = 0 \<or> 4 < n_dim then Inl NotImplementedError
               else (case pd_loop c (support_numba e) n_dim [0..<prod_list (pd_pre_size c)]
                            (reseed e (pd_seed c), global_np e) of
                       (connected_pres, connected_posts) \<Rightarrow>
                         Inr (IJ connected_pres connected_posts))))"

text \<open>
  The distance in the spec's words: Manhattan (one axis) or Euclidean distance between
  the pre-coordinates rescaled axis-wise by the pre/post axis-length ratio and the
  post-coordinates.
\<close>

definition rescaled_manhattan :: "nat list \<Rightarrow> nat list \<Rightarrow> nat list \<Rightarrow> nat list \<Rightarrow> real" where
  "rescaled_manhattan pre_pos post_pos pre_size post_size =
     sum_list (map2 (\<lambda>a b. \<bar>a - real b\<bar>)
                 (normalized_pos pre_pos pre_size post_size (length pre_pos)) post_pos)"

definition rescaled_euclid :: "nat list \<Rightarrow> nat list \<Rightarrow> nat list \<Rightarrow> nat list \<Rightarrow> real" where
  "rescaled_euclid pre_pos post_pos pre_size post_size =
     sqrt (sum_list (map2 (\<lambda>a b. (a - real b)\<^sup>2)
                       (normalized_pos pre_pos pre_size post_size (length pre_pos)) post_pos))"

section \<open>ScaleFreeBA\<close>

record scale_free_ba =
  ba_m :: int
  ba_directed :: bool
  ba_seed :: int

text \<open>
  \<^verbatim>\<open>_random_subset(seq, m)\<close>: \<^verbatim>\<open>while len(targets) < m: targets.add(rng.choice(seq))\<close>.
  The set is kept as the list of its elements in the order they were added (Python
  leaves the iteration order of a set open; the properties below do not depend on it).
  Nothing bounds the number of draws, so not returning is the value \<open>None\<close>.
\<close>

partial_function (option) random_subset ::
  "nat list \<Rightarrow> nat \<Rightarrow> nat list \<Rightarrow> rng \<Rightarrow> (nat list \<times> rng) option" where
  "random_subset seq m targets g =
     (if length targets < m
      then (case choice seq g of (x, g') \<Rightarrow>
              random_subset seq m (if x \<in> set targets then targets else targets @ [x]) g')
      else Some (targets, g))"

declare random_subset.simps [code]

text \<open>
  The growth loop \<^verbatim>\<open>while source < num_node\<close> of \<^verbatim>\<open>ScaleFreeBA.build_conn\<close>:
  \<^verbatim>\<open>conn[origins, targets] = True\<close> with \<^verbatim>\<open>origins = [source] * m\<close>, the mirrored
  write unless \<^verbatim>\<open>directed\<close>, the two extensions of \<^verbatim>\<open>repeated_nodes\<close>, and the next
  targets.
\<close>

function ba_grow ::
  "bool \<Rightarrow> nat \<Rightarrow> nat \<Rightarrow> mat \<Rightarrow> nat list \<Rightarrow> nat list \<Rightarrow> nat \<Rightarrow> rng \<Rightarrow> (error + mat) option" where
  "ba_grow directed m num_node conn targets repeated_nodes source g =
     (if source < num_node
      then (case set_pairs conn (zip (replicate m source) targets) True of
              Inl err \<Rightarrow> Some (Inl err)
            | Inr conn1 \<Rightarrow>
                (case (if \<not> directed
                       then set_pairs conn1 (zip targets (replicate m source)) True
                       else Inr conn1) of
                   Inl err \<Rightarrow> Some (Inl err)
                 | Inr conn2 \<Rightarrow>
                     (case random_subset (repeated_nodes @ targets @ replicate m source) m [] g of
                        None \<Rightarrow> None
                      | Some (targets', g') \<Rightarrow>
                          ba_grow directed m num_node conn2 targets'
                            (repeated_nodes @ targets @ replicate m source) (Suc source) g')))
      else Some (Inr conn))"
  by pat_completeness auto
termination
  by (relation "measure (\<lambda>(directed, m, num_node, conn, targets, repeated_nodes, source, g).
        num_node - source)") auto

definition ScaleFreeBA_build_conn ::
  "scale_free_ba \<Rightarrow> nat \<Rightarrow> nat \<Rightarrow> env \<Rightarrow> (error + conn_repr) option" where
  "ScaleFreeBA_build_conn c pre_num post_num e =
     (if pre_num \<noteq> post_num then Some (Inl AssertionError)
      else if ba_m c < 1 \<or> int pre_num \<le> ba_m c then Some (Inl ConnectorError)
      else (case ba_grow (ba_directed c) (nat (ba_m c)) pre_num (zeros pre_num pre_num)
                   [0..<nat (ba_m c)] [] (nat (ba_m c)) (reseed e (ba_seed c)) of
              None \<Rightarrow> None
            | Some (Inl err) \<Rightarrow> Some (Inl err)
            | Some (Inr conn) \<Rightarrow> Some (Inr (MAT conn))))"

text \<open>Degrees in a dense matrix: the true entries of row \<open>v\<close> and of column \<open>v\<close>.\<close>

definition out_degree :: "mat \<Rightarrow> nat \<Rightarrow> nat" where
  "out_degree conn v = length (filter (\<lambda>b. b) (conn ! v))"

definition in_degree :: "mat \<Rightarrow> nat \<Rightarrow> nat" where
  "in_degree conn v = length (filter (\<lambda>row. row ! v) conn)"

text \<open>
  The elements the first \<open>n\<close> draws of a generator pick from \<open>seq\<close> with
  \<^verbatim>\<open>rng.choice\<close>.
\<close>

definition picks :: "nat list \<Rightarrow> rng \<Rightarrow> nat \<Rightarrow> nat list" where
  "picks seq g n = map (\<lambda>k. seq ! nat \<lfloor>g k * real (length seq)\<rfloor>) [0..<n]"

text \<open>
  A generator whose draws keep visiting both ends of the unit interval: after every
  position there is a draw below \<open>1 / L\<close> and a draw of at least \<open>1 - 1 / L\<close>. A uniform
  random stream has this property with probability one; a constant stream does not.
\<close>

definition fair :: "nat \<Rightarrow> rng \<Rightarrow> bool" where
  "fair L g = (\<forall>n. (\<exists>k. n \<le> k \<and> g k < 1 / real L) \<and> (\<exists>k. n \<le> k \<and> 1 - 1 / real L \<le> g k))"

definition fair_env :: "nat \<Rightarrow> env \<Rightarrow> bool" where
  "fair_env L e = ((\<forall>s. fair L (np_seeded e s)) \<and> (\<forall>s. fair L (numba_seeded e s)))"

text \<open>A square matrix of side \<open>n\<close>.\<close>

definition square :: "nat \<Rightarrow> mat \<Rightarrow> bool" where
  "square n conn = (length conn = n \<and> list_all (\<lambda>row. length row = n) conn)"

section \<open>GaussianProb\<close>

text \<open>
  \<^verbatim>\<open>encoding_values\<close>: \<^verbatim>\<open>None\<close>, a tuple or list whose entries are numbers, a tuple or
  list whose entries are tuples or lists of numbers, or anything else.
\<close>

datatype encoding_values =
    EncNone
  | EncRange "real list"
  | EncAxes "real list list"
  | EncOther

record gaussian_prob =
  gp_sigma :: real
  gp_encoding_values :: encoding_values
  gp_normalize :: bool
  gp_include_self :: bool
  gp_periodic_boundary :: bool
  gp_seed :: int

text \<open>
  The first block of \<^verbatim>\<open>GaussianProb.build_conn\<close>: the value range of each axis, or the
  exception the checks raise. In the per-axis form the loop reads \<^verbatim>\<open>v[0]\<close> before it
  asserts \<^verbatim>\<open>len(v) == 2\<close>.
\<close>

fun check_axes :: "real list list \<Rightarrow> error + (real \<times> real) list" where
  "check_axes [] = Inr []"
| "check_axes (v # vs) =
     (if v = [] then Inl IndexError
      else if length v \<noteq> 2 then Inl AssertionError
      else (case check_axes vs of
              Inl err \<Rightarrow> Inl err
            | Inr rs \<Rightarrow> Inr ((v ! 0, v ! 1) # rs)))"

definition value_ranges :: "encoding_values \<Rightarrow> nat list \<Rightarrow> error + (real \<times> real) list" where
  "value_ranges enc pre_size =
     (case enc of
        EncNone \<Rightarrow> Inr (map (\<lambda>s. (0, real s)) pre_size)
      | EncRange vs \<Rightarrow>
          if length vs = 0 then Inl ConnectorError
          else if length vs \<noteq> 2 then Inl AssertionError
          else if vs ! 0 < vs ! 1 then Inr (map (\<lambda>s. (vs ! 0, vs ! 1)) pre_size)
          else Inl AssertionError
      | EncAxes vss \<Rightarrow>
          if length vss = 0 then Inl ConnectorError
          else if length vss \<noteq> length pre_size then Inl ConnectorError
          else check_axes vss
      | EncOther \<Rightarrow> Inl ConnectorError)"

text \<open>\<^verbatim>\<open>np.linspace(vs[0], vs[1], n + 1)[:n]\<close>.\<close>

definition linspace_head :: "real \<times> real \<Rightarrow> nat \<Rightarrow> real list" where
  "linspace_head r n = map (\<lambda>t. fst r + real t * ((snd r - fst r) / real n)) [0..<n]"

text \<open>
  The coordinates of node \<open>i\<close>: \<^verbatim>\<open>for s in self.pre_size[:-1]: i, pos = divmod(i, s)\<close>,
  then the remaining quotient.
\<close>

fun i_coordinate :: "nat list \<Rightarrow> nat \<Rightarrow> nat list" where
  "i_coordinate [] i = [i]"
| "i_coordinate [s] i = [i]"
| "i_coordinate (s # ss) i = (i mod s) # i_coordinate ss (i div s)"

text \<open>
  The coordinates behind column \<open>f\<close> of \<^verbatim>\<open>post_values\<close>: \<^verbatim>\<open>np.meshgrid\<close> (indexing
  \<^verbatim>\<open>'xy'\<close>) lays the grid out with its first two axes exchanged, and \<^verbatim>\<open>flatten\<close> reads
  it in row-major order.
\<close>

fun swap01 :: "'a list \<Rightarrow> 'a list" where
  "swap01 (a # b # r) = b # a # r"
| "swap01 xs = xs"

definition post_coordinate :: "nat list \<Rightarrow> nat \<Rightarrow> nat list" where
  "post_coordinate sizes f = swap01 (unravel (swap01 sizes) f)"

text \<open>
  One axis of \<^verbatim>\<open>dists\<close>: the absolute difference, wrapped when
  \<^verbatim>\<open>periodic_boundary\<close> is set.
\<close>

definition axis_dist :: "bool \<Rightarrow> real \<Rightarrow> real \<Rightarrow> real \<Rightarrow> real" where
  "axis_dist periodic value_size a b =
     (let d = \<bar>a - b\<bar> in if periodic \<and> d > value_size / 2 then value_size - d else d)"

text \<open>
  Entry \<open>[i][f]\<close> of \<^verbatim>\<open>prob_mat\<close> before normalisation:
  \<^verbatim>\<open>exp(-(norm(dists) / sigma) ** 2 / 2)\<close>. Floats are read as reals.
\<close>

definition gp_prob ::
  "gaussian_prob \<Rightarrow> real list list \<Rightarrow> real list \<Rightarrow> nat list \<Rightarrow> nat \<Rightarrow> nat \<Rightarrow> real" where
  "gp_prob c vals value_sizes sizes i f =
     (let ic = i_coordinate sizes i;
          pc = post_coordinate sizes f;
          dists = map (\<lambda>k. axis_dist (gp_periodic_boundary c) (value_sizes ! k)
                              (vals ! k ! (ic ! k)) (vals ! k ! (pc ! k)))
                      [0..<length sizes]
      in exp (- (sqrt (sum_list (map (\<lambda>d. d\<^sup>2) dists)) / gp_sigma c)\<^sup>2 / 2))"

text \<open>
  \<^verbatim>\<open>GaussianProb.build_conn\<close>. \<^verbatim>\<open>np.stack\<close> of no arrays (a shape without axes, or
  an empty population) is a \<open>ValueError\<close>. The threshold draws come from the
  connector's own generator, in row-major order.
\<close>

definition GaussianProb_build_conn ::
  "gaussian_prob \<Rightarrow> nat list \<Rightarrow> env \<Rightarrow> error + conn_repr" where
  "GaussianProb_build_conn c pre_size e =
     (case value_ranges (gp_encoding_values c) pre_size of
        Inl err \<Rightarrow> Inl err
      | Inr ranges \<Rightarrow>
          (let pre_num = prod_list pre_size;
               vals = map2 linspace_head ranges pre_size;
               value_sizes = map (\<lambda>r. snd r - fst r) ranges
           in if pre_size = [] \<or> pre_num = 0 then Inl ValueError
              else (let prob_mat = map (\<lambda>i. map (\<lambda>f. gp_prob c vals value_sizes pre_size i f)
                                                [0..<pre_num]) [0..<pre_num];
                        prob_mat' = (if gp_normalize c
                                     then map (map (\<lambda>p. p / Max (set (concat prob_mat)))) prob_mat
                                     else prob_mat);
                        us = fst (random_n (pre_num * pre_num) (np_seeded e (gp_seed c)));
                        conn_mat = map (\<lambda>i. map (\<lambda>j. prob_mat' ! i ! j \<ge> us ! (i * pre_num + j))
                                                [0..<pre_num]) [0..<pre_num]
                    in Inr (MAT (if \<not> gp_include_self c then fill_diagonal conn_mat False
                                 else conn_mat)))))"

text \<open>A scan's result with the process-wide generator's state replaced.\<close>

definition with_glob :: "rng \<Rightarrow> (nat list \<times> nat list) \<times> gens \<Rightarrow> (nat list \<times> nat list) \<times> gens" where
  "with_glob gl r = (fst r, (fst (snd r), gl))"

text \<open>
  What the spec asks of one CSR row of \<open>FixedPostNum\<close>: exactly \<open>k\<close> post-indices,
  pairwise distinct, each in \<open>[0, n)\<close>.
\<close>

definition good_row :: "nat \<Rightarrow> nat \<Rightarrow> nat list \<Rightarrow> bool" where
  "good_row k n row = (length row = k \<and> distinct row \<and> set row \<subseteq> {0..<n})"

section \<open>Properties of FixedProb\<close>

lemma uniform_advance: "uniform g \<Longrightarrow> uniform (advance k g)"
  by (simp add: uniform_def advance_def)

lemma where_true_all: "where_true (replicate n True) = [0..<n]"
  by (simp add: where_true_def filter_id_conv)

lemma where_true_none: "where_true (replicate n False) = []"
  by (simp add: where_true_def)

lemma map_const_replicate: "(\<And>x. x \<in> set xs \<Longrightarrow> f x = c) \<Longrightarrow> map f xs = replicate (length xs) c"
  by (induction xs) auto

lemma f_connect_prob1:
  assumes "uniform g" "fp_prob c = 1" "fp_pre_ratio c = 1" "fp_include_self c"
  shows "f_connect c i n g = (Some [0..<n], advance (Suc n) g)"
proof -
  have u: "g 0 < 1" using assms(1) by (simp add: uniform_def)
  have "map (\<lambda>x. x \<le> 1) (map (advance 1 g) [0..<n]) = replicate n True"
    using assms(1) by (subst map_const_replicate[where c=True]) (auto simp: uniform_def advance_def less_imp_le)
  then show ?thesis using u assms
    by (simp add: f_connect_def random_def random_n_def where_true_all advance_def)
qed

lemma fp_rows_prob1:
  assumes "fp_prob c = 1" "fp_pre_ratio c = 1" "fp_include_self c"
  shows "uniform g \<Longrightarrow> fp_rows c n is g = (replicate (length is) [0..<n], replicate (length is) n)"
proof (induction "is" arbitrary: g)
  case Nil then show ?case by simp
next
  case (Cons i "is")
  show ?case using Cons.prems Cons.IH[OF uniform_advance[OF Cons.prems, of "Suc n"]] assms
    by (simp add: f_connect_prob1)
qed

lemma build_conn_prob1:
  assumes "uniform_env e" "fp_prob c = 1" "fp_pre_ratio c = 1" "fp_include_self c"
  shows "FixedProb_build_conn c pre_num post_num e =
           Inr (CSR (concat (replicate pre_num [0..<post_num])) (indptr_of (replicate pre_num post_num)))"
  using assms by (simp add: FixedProb_build_conn_def fp_rows_prob1 uniform_env_def)

lemma flat_index_less: "i < (p::nat) \<Longrightarrow> j < q \<Longrightarrow> i * q + j < p * q"
proof -
  assume a: "i < p" "j < q"
  have "i * q + j < Suc i * q" using a by simp
  also have "\<dots> \<le> p * q" using a by (intro mult_le_mono1) simp
  finally show ?thesis .
qed

lemma build_mat_prob0:
  assumes "uniform_env e" "fp_prob c = 0"
  shows "FixedProb_build_mat c pre_num post_num e = replicate pre_num (replicate post_num False)"
proof -
  let ?g = "advance pre_num (np_seeded e (fp_seed c))"
  have "uniform (np_seeded e (fp_seed c))" using assms(1) by (simp add: uniform_env_def)
  then have u: "uniform ?g" by (rule uniform_advance)
  have row: "map (\<lambda>j. map ?g [0..<pre_num * post_num] ! (i * post_num + j) < 0 \<and> P i) [0..<post_num]
             = replicate post_num False" if "i < pre_num" for i P
    using that u
    by (subst map_const_replicate[where c=False]) (auto simp: flat_index_less uniform_def not_less)
  have mat: "map (\<lambda>i. map (\<lambda>j. map ?g [0..<pre_num * post_num] ! (i * post_num + j) < 0 \<and> P i) [0..<post_num]) [0..<pre_num]
             = replicate pre_num (replicate post_num False)" for P
    by (subst map_const_replicate[where c="replicate post_num False"]) (auto simp: row)
  have fd: "fill_diagonal (replicate pre_num (replicate post_num False)) False
            = replicate pre_num (replicate post_num False)"
    by (auto simp: fill_diagonal_def list_eq_iff_nth_eq nth_list_update)
  show ?thesis using assms(2)
    by (simp add: FixedProb_build_mat_def random_n_def mat fd Let_def)
qed

lemma build_mat_prob1:
  assumes "uniform_env e" "fp_prob c = 1" "fp_pre_ratio c = 1" "fp_include_self c"
  shows "FixedProb_build_mat c pre_num post_num e = replicate pre_num (replicate post_num True)"
proof -
  let ?h = "np_seeded e (fp_seed c)"
  let ?g = "advance pre_num ?h"
  have uh: "uniform ?h" using assms(1) by (simp add: uniform_env_def)
  have u: "uniform ?g" using uh by (rule uniform_advance)
  have row: "map (\<lambda>j. map ?g [0..<pre_num * post_num] ! (i * post_num + j) < 1 \<and> P i) [0..<post_num]
             = replicate post_num True" if "i < pre_num" "P i" for i P
    using that u
    by (subst map_const_replicate[where c=True]) (auto simp: flat_index_less uniform_def)
  have mat: "map (\<lambda>i. map (\<lambda>j. map ?g [0..<pre_num * post_num] ! (i * post_num + j) < 1 \<and> P i) [0..<post_num]) [0..<pre_num]
             = replicate pre_num (replicate post_num True)" if "\<And>i. i < pre_num \<Longrightarrow> P i" for P
    using that by (subst map_const_replicate[where c="replicate post_num True"])
      (auto simp: row row[where P="\<lambda>_. True", simplified])
  have "map (\<lambda>i. map (\<lambda>j. map ?g [0..<pre_num * post_num] ! (i * post_num + j) < 1
                 \<and> map ?h [0..<pre_num] ! i < 1) [0..<post_num]) [0..<pre_num]
             = replicate pre_num (replicate post_num True)"
    by (rule mat) (use uh in \<open>simp add: uniform_def\<close>)
  then show ?thesis using assms(2-)
    by (simp add: FixedProb_build_mat_def random_n_def Let_def)
qed

text \<open>
  C4 (first half, on \<^verbatim>\<open>build_conn\<close>): the claim says that \<open>FixedProb\<close> with
  \<open>prob = 0\<close> yields no edge through every builder. \<^verbatim>\<open>build_conn\<close> tests each draw
  with \<^verbatim>\<open><= prob\<close>, so a draw equal to \<open>0\<close> passes: with one pre-index, one post-index
  and a generator whose second draw is \<open>0\<close>, the builder returns the edge \<open>(0, 0)\<close>.
  \<^verbatim>\<open>build_mat\<close> tests with \<^verbatim>\<open>< prob\<close> and returns no edge (lemma
  \<open>build_mat_prob0\<close>); the second half of the claim holds (lemmas \<open>build_conn_prob1\<close>
  and \<open>build_mat_prob1\<close>).
\<close>

theorem C4_build_conn_prob0_edge:
  "FixedProb_build_conn \<lparr>fp_prob = 0, fp_pre_ratio = 1, fp_include_self = True, fp_seed = 0\<rparr> 1 1
     \<lparr>support_numba = False, np_seeded = (\<lambda>s n. if n = 1 then 0 else 1/2),
      numba_seeded = (\<lambda>s n. 1/2), global_np = (\<lambda>n. 1/2)\<rparr> = Inr (CSR [0] [0, 1])"
  by (simp add: FixedProb_build_conn_def f_connect_def random_def random_n_def advance_def
        where_true_def indptr_of_def)

lemma FixedProb_init_out_of_range:
  "prob < 0 \<or> 1 < prob \<Longrightarrow> FixedProb_init prob pre_ratio include_self seed = Inl AssertionError"
  by (auto simp: FixedProb_init_def)

text \<open>
  C5: the claim says that constructing \<open>FixedProb\<close> with \<open>prob\<close> outside \<open>[0, 1]\<close>
  fails with a \<open>ConnectorError\<close> and no other kind of exception. The only check of
  \<^verbatim>\<open>FixedProb.__init__\<close> is \<^verbatim>\<open>assert 0. <= prob <= 1.\<close>: with \<open>prob = 2\<close> the
  constructor raises \<open>AssertionError\<close>, not \<open>ConnectorError\<close> (and so for every
  \<open>prob\<close> out of range, lemma \<open>FixedProb_init_out_of_range\<close>). The sibling
  \<^verbatim>\<open>PowerLaw.__init__\<close> raises \<open>ConnectorError\<close> for its probability out of range.
\<close>

theorem C5_not_connector_error:
  "FixedProb_init 2 1 True 0 = Inl AssertionError
   \<and> FixedProb_init 2 1 True 0 \<noteq> Inl ConnectorError"
  by (simp add: FixedProb_init_def)

section \<open>Properties of FixedPreNum and FixedPostNum\<close>

lemma argsort_perm: "set (argsort xs) = {0..<length xs} \<and> distinct (argsort xs)"
  by (simp add: argsort_def)

lemma take_argsort:
  "distinct (take k (argsort xs)) \<and> set (take k (argsort xs)) \<subseteq> {0..<length xs}
   \<and> length (take k (argsort xs)) = min k (length xs)"
proof -
  have "set (take k (argsort xs)) \<subseteq> set (argsort xs)" by (rule set_take_subset)
  moreover have "length (argsort xs) = length xs" by (simp add: argsort_def)
  ultimately show ?thesis using argsort_perm[of xs] by (simp add: min.commute)
qed

lemma fixed_num_prob_ok:
  assumes "k \<le> n" "incl \<or> i < n"
  shows "\<exists>row g'. fixed_num_prob incl k n i g = Inr (row, g') \<and> good_row k n row"
  using assms take_argsort[of k "map g [0..<n]"] take_argsort[of k "(map g [0..<n])[i := 1]"]
  by (auto simp: fixed_num_prob_def random_n_def good_row_def)

lemma connect_rows_ok:
  assumes "\<And>i g. i \<in> set is \<Longrightarrow> \<exists>row g'. f i g = Inr (row, g') \<and> P row"
  shows "\<exists>rows. connect_rows f is g = Inr rows \<and> length rows = length is \<and> (\<forall>r \<in> set rows. P r)"
  using assms
proof (induction "is" arbitrary: g)
  case Nil then show ?case by simp
next
  case (Cons i "is")
  obtain row g' where r: "f i g = Inr (row, g')" "P row" using Cons.prems[of i g] by auto
  obtain rows where rs: "connect_rows f is g' = Inr rows" "length rows = length is" "\<forall>r \<in> set rows. P r"
    using Cons.IH[of g'] Cons.prems by auto
  show ?case using r rs by simp
qed

lemma cumsum_from_replicate:
  "i < n \<Longrightarrow> cumsum_from acc (replicate n k) ! i = acc + Suc i * k"
proof (induction n arbitrary: acc i)
  case 0 then show ?case by simp
next
  case (Suc n) then show ?case by (cases i) (simp_all add: algebra_simps)
qed

lemma indptr_replicate: "i \<le> n \<Longrightarrow> indptr_of (replicate n k) ! i = i * k"
  by (cases i) (simp_all add: indptr_of_def cumsum_from_replicate)

lemma concat_slice:
  "\<forall>r \<in> set rows. length r = k \<Longrightarrow> i < length rows \<Longrightarrow> take k (drop (i * k) (concat rows)) = rows ! i"
proof (induction rows arbitrary: i)
  case Nil then show ?case by simp
next
  case (Cons r rows) then show ?case by (cases i) simp_all
qed

lemma csr_row_uniform:
  assumes "\<forall>r \<in> set rows. length r = k" "i < length rows"
  shows "csr_row (concat rows) (indptr_of (replicate (length rows) k)) i = rows ! i"
  using assms by (simp add: csr_row_def indptr_replicate concat_slice)

lemma FixedPostNum_exact_degree:
  assumes "fn_num c = IntNum (int k)" "k \<le> post_num" "0 < pre_num"
    and "fn_include_self c \<or> pre_num \<le> post_num"
  shows "\<exists>ind indptr. FixedPostNum_build_conn c pre_num post_num e = Inr (CSR ind indptr)
           \<and> (\<forall>i < pre_num. good_row k post_num (csr_row ind indptr i))"
proof -
  let ?f = "fixed_num_prob (fn_include_self c) k post_num"
  have "\<And>i g. i \<in> set [0..<pre_num] \<Longrightarrow> \<exists>row g'. ?f i g = Inr (row, g') \<and> good_row k post_num row"
    using assms(2,4) by (intro fixed_num_prob_ok) auto
  from connect_rows_ok[of "[0..<pre_num]" ?f "good_row k post_num", OF this]
  obtain rows where rs: "connect_rows ?f [0..<pre_num] (reseed e (fn_seed c)) = Inr rows"
      "length rows = pre_num" "\<forall>r \<in> set rows. good_row k post_num r" by auto
  have ne: "rows \<noteq> []" using rs(2) assms(3) by auto
  have len: "\<forall>r \<in> set rows. length r = k" using rs(3) by (simp add: good_row_def)
  have "\<forall>i < pre_num. good_row k post_num (csr_row (concat rows) (indptr_of (replicate pre_num k)) i)"
    using csr_row_uniform[OF len] rs(2,3) by auto
  then show ?thesis using rs(1) ne assms(1,2)
    by (simp add: FixedPostNum_build_conn_def check_num_def)
qed


text \<open>
  C1: the claim says that \<open>FixedPostNum\<close> with an integer \<open>num = k \<le> post_num\<close> returns
  a CSR whose every row has exactly \<open>k\<close> distinct post-indices. With
  \<open>include_self = False\<close>, three pre-indices and two post-indices, the row sampler is
  called with \<open>i = 2 = num_total\<close>; the guard \<^verbatim>\<open>i <= num_total\<close> lets the write
  \<^verbatim>\<open>prob[2] = 1.\<close> into an array of length 2 happen, and the builder raises
  \<open>IndexError\<close> instead of returning. Where \<open>include_self\<close> holds or
  \<open>pre_num \<le> post_num\<close> the claim holds (lemma \<open>FixedPostNum_exact_degree\<close>).
\<close>

theorem C1_FixedPostNum_index_error:
  "FixedPostNum_build_conn \<lparr>fn_num = IntNum 1, fn_include_self = False, fn_seed = 0\<rparr> 3 2
     \<lparr>support_numba = False, np_seeded = (\<lambda>s n. 1/2), numba_seeded = (\<lambda>s n. 1/2),
      global_np = (\<lambda>n. 1/2)\<rparr> = Inl IndexError"
  by (simp add: FixedPostNum_build_conn_def check_num_def reseed_def randint_def
        fixed_num_prob_def random_n_def advance_def argsort_def upt_rec)

text \<open>
  C9: the claim says that in \<open>FixedPreNum.build_conn\<close> with \<open>include_self = False\<close> the
  write \<^verbatim>\<open>prob[i] = 1.\<close> is skipped or within bounds for every post-index \<open>i\<close>. With
  two pre-indices and three post-indices the guard \<^verbatim>\<open>i <= num_total\<close> admits
  \<open>i = 2 = pre_num\<close>, an index one past the end of the draw array: the builder raises
  \<open>IndexError\<close>.
\<close>

theorem C9_FixedPreNum_index_error:
  "FixedPreNum_build_conn \<lparr>fn_num = IntNum 1, fn_include_self = False, fn_seed = 0\<rparr> 2 3
     \<lparr>support_numba = False, np_seeded = (\<lambda>s n. 1/2), numba_seeded = (\<lambda>s n. 1/2),
      global_np = (\<lambda>n. 1/2)\<rparr> = Inl IndexError"
  by (simp add: FixedPreNum_build_conn_def check_num_def reseed_def randint_def
        fixed_num_prob_def random_n_def advance_def argsort_def upt_rec)

section \<open>Properties of SmallWorld\<close>

lemma sw_lattice_20_4: "sw_lattice [0..<20] (sw_range 4) (zeros 20 20) = Inr (ring_lattice 20)"
  by code_simp

lemma smallworld_rewire_prob0:
  "uniform g \<Longrightarrow> smallworld_rewire 0 incl i row g = Some (-1, advance 1 g)"
proof -
  assume "uniform g"
  then have "\<not> g 0 < 0" by (simp add: uniform_def not_less)
  then show ?thesis by (simp add: smallworld_rewire_def random_def)
qed

lemma rewire_undirected_prob0:
  assumes "sw_prob c = 0"
  shows "uniform g \<Longrightarrow> \<forall>p \<in> set ps. fst p < length conn \<Longrightarrow>
         rewire_undirected c ps conn g = Some (Inr (conn, advance (length ps) g))"
proof (induction ps arbitrary: g)
  case Nil then show ?case by (simp add: advance_def)
next
  case (Cons p ps)
  obtain u v where p: "p = (u, v)" by (cases p)
  have "uniform (advance 1 g)" using Cons.prems(1) by (rule uniform_advance)
  from Cons.IH[OF this] Cons.prems show ?case using assms
    by (simp add: p smallworld_rewire_prob0 advance_def)
qed


lemma sw_rewire_loop_prob0:
  assumes "sw_prob c = 0" "\<not> sw_directed c"
  shows "uniform g \<Longrightarrow> length conn = length nodes \<Longrightarrow> \<forall>u \<in> set nodes. u < length nodes \<Longrightarrow>
         \<exists>g'. sw_rewire_loop c nodes js conn g = Some (Inr (conn, g'))"
proof (induction js arbitrary: g)
  case Nil then show ?case by simp
next
  case (Cons j js)
  let ?ps = "zip nodes (sw_targets nodes j)"
  have "\<forall>p \<in> set ?ps. fst p < length conn"
    using Cons.prems(2,3) by (auto dest: set_zip_leftD)
  from rewire_undirected_prob0[OF assms(1) Cons.prems(1) this]
  have r: "rewire_undirected c ?ps conn g = Some (Inr (conn, advance (length ?ps) g))" .
  have "uniform (advance (length ?ps) g)" using Cons.prems(1) by (rule uniform_advance)
  from Cons.IH[OF this Cons.prems(2,3)] show ?case using assms(2) r by simp
qed

lemma uniform_reseed: "uniform_env e \<Longrightarrow> uniform (reseed e s)"
  by (simp add: reseed_def randint_def uniform_env_def uniform_advance)

text \<open>
  C3: \<open>SmallWorld(num_neighbor=4, prob=0, include_self=False)\<close> (undirected, the
  default) on a one-axis population of 20 nodes returns exactly the ring lattice, entry
  \<open>[i][j]\<close> true iff \<open>j \<in> {i - 2, i - 1, i + 1, i + 2} mod 20\<close>, whatever the seed and
  the generators' draws: no draw of \<open>[0, 1)\<close> is below \<open>prob = 0\<close>, so no edge is
  rewired.
\<close>

theorem C3_SmallWorld_ring_lattice:
  assumes "uniform_env e"
  shows "SmallWorld_build_conn
           \<lparr>sw_num_neighbor = 4, sw_prob = 0, sw_directed = False, sw_include_self = False,
            sw_seed = s, sw_pre_size = [20], sw_post_size = [20]\<rparr> e
         = Some (Inr (MAT (ring_lattice 20)))"
proof -
  let ?c = "\<lparr>sw_num_neighbor = 4, sw_prob = 0, sw_directed = False, sw_include_self = False,
            sw_seed = s, sw_pre_size = [20], sw_post_size = [20]\<rparr>"
  have len: "length (ring_lattice 20) = length [0..<20::nat]" by (simp add: ring_lattice_def)
  have "\<exists>g'. sw_rewire_loop ?c [0..<20] (sw_range 4) (ring_lattice 20) (reseed e s)
           = Some (Inr (ring_lattice 20, g'))"
    by (rule sw_rewire_loop_prob0[OF _ _ uniform_reseed[OF assms] len]) simp_all
  then show ?thesis
    by (auto simp: SmallWorld_build_conn_def sw_lattice_20_4)
qed

theorem C3_SmallWorld_ring_lattice_witness:
  "uniform_env \<lparr>support_numba = False, np_seeded = (\<lambda>s n. 1/2), numba_seeded = (\<lambda>s n. 1/4),
                global_np = (\<lambda>n. 0)\<rparr>
   \<and> SmallWorld_build_conn
        \<lparr>sw_num_neighbor = 4, sw_prob = 0, sw_directed = False, sw_include_self = False,
         sw_seed = 7, sw_pre_size = [20], sw_post_size = [20]\<rparr>
        \<lparr>support_numba = False, np_seeded = (\<lambda>s n. 1/2), numba_seeded = (\<lambda>s n. 1/4),
         global_np = (\<lambda>n. 0)\<rparr>
      = Some (Inr (MAT (ring_lattice 20)))"
proof -
  have u: "uniform_env \<lparr>support_numba = False, np_seeded = (\<lambda>s n. 1/2),
             numba_seeded = (\<lambda>s n. 1/4), global_np = (\<lambda>n. 0)\<rparr>"
    by (simp add: uniform_env_def uniform_def)
  show ?thesis using u C3_SmallWorld_ring_lattice [OF u, of 7] by simp
qed

text \<open>
  C10: for \<open>SmallWorld\<close> on a one-axis population of size \<open>n\<close> with
  \<open>num_neighbor = n\<close>, \<open>build_conn\<close> returns the all-true \<open>n \<times> n\<close> matrix, diagonal
  included, whatever \<open>include_self\<close>, \<open>prob\<close>, \<open>directed\<close>, the seed and the draws are.
\<close>

theorem C10_SmallWorld_complete:
  assumes "sw_pre_size c = [n]" "sw_post_size c = [n]" "sw_num_neighbor c = int n"
  shows "SmallWorld_build_conn c e = Some (Inr (MAT (replicate n (replicate n True))))"
  using assms by (simp add: SmallWorld_build_conn_def ones_def)

theorem C10_SmallWorld_complete_witness:
  "SmallWorld_build_conn
     \<lparr>sw_num_neighbor = 3, sw_prob = 1/2, sw_directed = False, sw_include_self = False,
      sw_seed = 1, sw_pre_size = [3], sw_post_size = [3]\<rparr>
     \<lparr>support_numba = False, np_seeded = (\<lambda>s n. 1/2), numba_seeded = (\<lambda>s n. 1/4),
      global_np = (\<lambda>n. 0)\<rparr>
   = Some (Inr (MAT [[True, True, True], [True, True, True], [True, True, True]]))"
  using C10_SmallWorld_complete [of "\<lparr>sw_num_neighbor = 3, sw_prob = 1/2, sw_directed = False,
      sw_include_self = False, sw_seed = 1, sw_pre_size = [3], sw_post_size = [3]\<rparr>" 3
      "\<lparr>support_numba = False, np_seeded = (\<lambda>s n. 1/2), numba_seeded = (\<lambda>s n. 1/4),
        global_np = (\<lambda>n. 0)\<rparr>"]
  by (simp add: numeral_3_eq_3)

section \<open>Properties of ProbDist\<close>

lemma scan_nd_numba:
  "scan_nd c True pre_pos ps (own, gl) = with_glob gl (scan_nd c True pre_pos ps (own, gl'))"
proof (induction ps arbitrary: own)
  case Nil show ?case by (simp add: with_glob_def)
next
  case (Cons p ps)
  show ?case
    by (simp add: Let_def np_random_random_def Cons.IH
          split: prod.splits) (auto simp: with_glob_def)
qed

lemma scan_1d_glob:
  "scan_1d c pre_pos is (own, gl) = with_glob gl (scan_1d c pre_pos is (own, gl'))"
proof (induction "is" arbitrary: own)
  case Nil show ?case by (simp add: with_glob_def)
next
  case (Cons p ps)
  show ?case
    by (simp add: Let_def rng_random_def Cons.IH
          split: prod.splits) (auto simp: with_glob_def)
qed

lemma connect_nd_numba:
  "connect_nd c True pre_pos n_dim (own, gl) = with_glob gl (connect_nd c True pre_pos n_dim (own, gl'))"
  using scan_nd_numba[of c pre_pos _ "advance 1 own" gl gl']
  by (simp add: connect_nd_def rng_random_def Let_def) (simp add: with_glob_def)

lemma connect_1d_glob:
  "connect_1d c pre_pos n_dim (own, gl) = with_glob gl (connect_1d c pre_pos n_dim (own, gl'))"
  using scan_1d_glob[of c pre_pos _ "advance 1 own" gl gl']
  by (simp add: connect_1d_def rng_random_def Let_def) (simp add: with_glob_def)

lemma pd_loop_glob:
  assumes "numba \<or> n_dim = 1"
  shows "pd_loop c numba n_dim is (own, gl) = pd_loop c numba n_dim is (own, gl')"
proof (induction "is" arbitrary: own gl gl')
  case Nil show ?case by simp
next
  case (Cons i "is")
  show ?case
  proof (cases "n_dim = 1")
    case True
    obtain r o' g2 where r: "connect_1d c (unravel (pd_pre_size c) i) n_dim (own, gl') = (r, (o', g2))"
      by (metis prod.exhaust)
    then have "connect_1d c (unravel (pd_pre_size c) i) n_dim (own, gl) = (r, (o', gl))"
      using connect_1d_glob[of c _ n_dim own gl gl'] by (simp add: with_glob_def)
    with r True Cons.IH[of o' gl g2] show ?thesis by (simp split: prod.splits)
  next
    case False
    then have nb: "numba" using assms by simp
    obtain r o' g2 where r: "connect_nd c True (unravel (pd_pre_size c) i) n_dim (own, gl') = (r, (o', g2))"
      by (metis prod.exhaust)
    then have "connect_nd c True (unravel (pd_pre_size c) i) n_dim (own, gl) = (r, (o', gl))"
      using connect_nd_numba[of c _ n_dim own gl gl'] by (simp add: with_glob_def)
    with r False nb Cons.IH[of o' gl g2] show ?thesis by (simp split: prod.splits)
  qed
qed

lemma ProbDist_build_conn_seeded:
  assumes "support_numba e \<or> length (pd_pre_size c) = 1"
  shows "ProbDist_build_conn c (e\<lparr>global_np := gl\<rparr>) = ProbDist_build_conn c e"
proof -
  have r: "reseed (e\<lparr>global_np := gl\<rparr>) s = reseed e s" for s
    by (simp add: reseed_def split: prod.splits)
  have "pd_loop c (support_numba e) (length (pd_pre_size c)) is (reseed e (pd_seed c), gl)
        = pd_loop c (support_numba e) (length (pd_pre_size c)) is (reseed e (pd_seed c), global_np e)" for "is"
    by (rule pd_loop_glob[OF assms])
  moreover have "support_numba (e\<lparr>global_np := gl\<rparr>) = support_numba e"
    and "global_np (e\<lparr>global_np := gl\<rparr>) = gl" by simp_all
  ultimately show ?thesis
    unfolding ProbDist_build_conn_def by (simp only: r Let_def)
qed

text \<open>
  C2: the claim says that the distance tested against \<open>dist\<close> is taken on the
  pre-coordinates rescaled by the pre/post axis-length ratio, so that an edge is emitted
  only if the rescaled distance is at most \<open>dist\<close>. Every \<^verbatim>\<open>_connect_*d\<close> computes
  \<^verbatim>\<open>normalized_pos\<close> and then measures from the raw \<^verbatim>\<open>pre_pos\<close>. With \<open>dist = 0\<close>,
  \<open>prob = 1\<close>, a pre-population of 2 and a post-population of 4 on one axis, the builder
  emits the edge from pre-coordinate 1 to post-coordinate 1, whose rescaled distance
  is \<open>|1 * 4 / 2 - 1| = 1 > 0\<close>; likewise on two axes with shapes \<open>(1, 2)\<close> and
  \<open>(1, 4)\<close>, from \<open>(0, 1)\<close> to \<open>(0, 1)\<close>.
\<close>

theorem C2_ProbDist_raw_distance:
  "ProbDist_build_conn
     \<lparr>pd_dist = 0, pd_prob = 1, pd_pre_ratio = 1, pd_include_self = True, pd_seed = 0,
      pd_pre_size = [2], pd_post_size = [4]\<rparr>
     \<lparr>support_numba = False, np_seeded = (\<lambda>s n. 1/2), numba_seeded = (\<lambda>s n. 1/2),
      global_np = (\<lambda>n. 1/2)\<rparr> = Inr (IJ [0, 1] [0, 1])
   \<and> rescaled_manhattan [1] [1] [2] [4] = 1
   \<and> ProbDist_build_conn
     \<lparr>pd_dist = 0, pd_prob = 1, pd_pre_ratio = 1, pd_include_self = True, pd_seed = 0,
      pd_pre_size = [1, 2], pd_post_size = [1, 4]\<rparr>
     \<lparr>support_numba = False, np_seeded = (\<lambda>s n. 1/2), numba_seeded = (\<lambda>s n. 1/2),
      global_np = (\<lambda>n. 1/2)\<rparr> = Inr (IJ [0, 1] [0, 1])
   \<and> rescaled_euclid [0, 1] [0, 1] [1, 2] [1, 4] = 1"
proof -
  have a: "ProbDist_build_conn
     \<lparr>pd_dist = 0, pd_prob = 1, pd_pre_ratio = 1, pd_include_self = True, pd_seed = 0,
      pd_pre_size = [2], pd_post_size = [4]\<rparr>
     \<lparr>support_numba = False, np_seeded = (\<lambda>s n. 1/2), numba_seeded = (\<lambda>s n. 1/2),
      global_np = (\<lambda>n. 1/2)\<rparr> = Inr (IJ [0, 1] [0, 1])"
    by (simp add: ProbDist_build_conn_def reseed_def randint_def connect_1d_def rng_random_def
          advance_def manhattan_def upt_rec Let_def)
  have b: "rescaled_manhattan [1] [1] [2] [4] = 1"
    by (simp add: rescaled_manhattan_def normalized_pos_def)
  have c: "ProbDist_build_conn
     \<lparr>pd_dist = 0, pd_prob = 1, pd_pre_ratio = 1, pd_include_self = True, pd_seed = 0,
      pd_pre_size = [1, 2], pd_post_size = [1, 4]\<rparr>
     \<lparr>support_numba = False, np_seeded = (\<lambda>s n. 1/2), numba_seeded = (\<lambda>s n. 1/2),
      global_np = (\<lambda>n. 1/2)\<rparr> = Inr (IJ [0, 1] [0, 1])"
    by (simp add: ProbDist_build_conn_def reseed_def randint_def connect_nd_def rng_random_def
          np_random_random_def advance_def euclid_def upt_rec Let_def)
  have d: "rescaled_euclid [0, 1] [0, 1] [1, 2] [1, 4] = 1"
    by (simp add: rescaled_euclid_def normalized_pos_def upt_rec)
  from a b c d show ?thesis by (intro conjI)
qed

text \<open>
  C6: the claim says that two fresh connectors with the same explicit seed, parameters
  and shapes return identical representations on their first build, \<open>ProbDist\<close> over
  two to four axes in particular. Without numba the acceptance draw of
  \<^verbatim>\<open>_connect_2d\<close> is \<^verbatim>\<open>np.random.random()\<close>, numpy's process-wide generator, which
  the connector's seed does not set: the same connector, seed and shapes \<open>(1, 1)\<close> give
  the edge \<open>(0, 0)\<close> in a process whose next global draw is \<open>0\<close> and no edge in one whose
  next global draw is \<open>3/4\<close>. With numba, or on one axis (where the draw is
  \<^verbatim>\<open>rng.random()\<close>), the result does not depend on the process-wide generator (lemma
  \<open>ProbDist_build_conn_seeded\<close>).
\<close>

theorem C6_ProbDist_2d_depends_on_global:
  "ProbDist_build_conn
     \<lparr>pd_dist = 1, pd_prob = 1/2, pd_pre_ratio = 1, pd_include_self = True, pd_seed = 42,
      pd_pre_size = [1, 1], pd_post_size = [1, 1]\<rparr>
     \<lparr>support_numba = False, np_seeded = (\<lambda>s n. 1/2), numba_seeded = (\<lambda>s n. 1/2),
      global_np = (\<lambda>n. 0)\<rparr> = Inr (IJ [0] [0])
   \<and> ProbDist_build_conn
     \<lparr>pd_dist = 1, pd_prob = 1/2, pd_pre_ratio = 1, pd_include_self = True, pd_seed = 42,
      pd_pre_size = [1, 1], pd_post_size = [1, 1]\<rparr>
     \<lparr>support_numba = False, np_seeded = (\<lambda>s n. 1/2), numba_seeded = (\<lambda>s n. 1/2),
      global_np = (\<lambda>n. 3/4)\<rparr> = Inr (IJ [] [])"
  by (simp add: ProbDist_build_conn_def reseed_def randint_def connect_nd_def rng_random_def
        np_random_random_def advance_def euclid_def upt_rec Let_def)

section \<open>Properties of ScaleFreeBA\<close>

lemma choice_in_range:
  assumes "uniform g" "seq \<noteq> []"
  shows "fst (choice seq g) \<in> set seq" and "uniform (snd (choice seq g))"
proof -
  have u: "0 \<le> g 0" "g 0 < 1" using assms(1) by (simp_all add: uniform_def)
  have n: "0 < real (length seq)" using assms(2) by simp
  have "g 0 * real (length seq) < real (length seq)" using u n by simp
  then have "\<lfloor>g 0 * real (length seq)\<rfloor> < int (length seq)" by (simp add: floor_less_iff)
  moreover have "0 \<le> \<lfloor>g 0 * real (length seq)\<rfloor>" using u n by simp
  ultimately have "nat \<lfloor>g 0 * real (length seq)\<rfloor> < length seq" by linarith
  then show "fst (choice seq g) \<in> set seq" by (simp add: choice_def)
  show "uniform (snd (choice seq g))" using assms(1) by (simp add: choice_def uniform_advance)
qed

lemma random_subset_post:
  assumes "random_subset seq m targets g = Some y"
  shows "distinct targets \<and> length targets \<le> m \<and> set targets \<subseteq> set seq \<and> uniform g \<and> seq \<noteq> []
         \<longrightarrow> distinct (fst y) \<and> length (fst y) = m \<and> set (fst y) \<subseteq> set seq \<and> uniform (snd y)"
proof (rule random_subset.raw_induct[where P = "\<lambda>seq m targets g y.
         distinct targets \<and> length targets \<le> m \<and> set targets \<subseteq> set seq \<and> uniform g \<and> seq \<noteq> []
         \<longrightarrow> distinct (fst y) \<and> length (fst y) = m \<and> set (fst y) \<subseteq> set seq \<and> uniform (snd y)",
       OF _ assms])
  fix rs :: "nat list \<Rightarrow> nat \<Rightarrow> nat list \<Rightarrow> rng \<Rightarrow> (nat list \<times> rng) option"
  fix seq m targets g y
  assume IH: "\<And>seq m targets g y. rs seq m targets g = Some y \<Longrightarrow>
         distinct targets \<and> length targets \<le> m \<and> set targets \<subseteq> set seq \<and> uniform g \<and> seq \<noteq> []
         \<longrightarrow> distinct (fst y) \<and> length (fst y) = m \<and> set (fst y) \<subseteq> set seq \<and> uniform (snd y)"
  assume eq: "(if length targets < m
      then (case choice seq g of (x, g') \<Rightarrow>
              rs seq m (if x \<in> set targets then targets else targets @ [x]) g')
      else Some (targets, g)) = Some y"
  show "distinct targets \<and> length targets \<le> m \<and> set targets \<subseteq> set seq \<and> uniform g \<and> seq \<noteq> []
         \<longrightarrow> distinct (fst y) \<and> length (fst y) = m \<and> set (fst y) \<subseteq> set seq \<and> uniform (snd y)"
  proof (intro impI)
    assume inv: "distinct targets \<and> length targets \<le> m \<and> set targets \<subseteq> set seq \<and> uniform g \<and> seq \<noteq> []"
    show "distinct (fst y) \<and> length (fst y) = m \<and> set (fst y) \<subseteq> set seq \<and> uniform (snd y)"
    proof (cases "length targets < m")
      case False
      then show ?thesis using eq inv by auto
    next
      case True
      obtain x g' where c: "choice seq g = (x, g')" by (cases "choice seq g")
      have x: "x \<in> set seq" and g': "uniform g'"
        using choice_in_range[of g seq] inv c by auto
      let ?t = "if x \<in> set targets then targets else targets @ [x]"
      have call: "rs seq m ?t g' = Some y" using eq True c by simp
      have "distinct ?t \<and> length ?t \<le> m \<and> set ?t \<subseteq> set seq \<and> uniform g' \<and> seq \<noteq> []"
        using inv True x g' by auto
      with IH[OF call] show ?thesis by blast
    qed
  qed
qed

lemma mat_set_True:
  assumes "square n conn" "u < n" "v < n"
  shows "\<exists>conn'. mat_set conn u v True = Inr conn' \<and> square n conn' \<and> conn' ! u ! v
           \<and> (\<forall>i<n. \<forall>j<n. conn ! i ! j \<longrightarrow> conn' ! i ! j)"
proof -
  have len: "length conn = n" and rows: "\<And>i. i < n \<Longrightarrow> length (conn ! i) = n"
    using assms(1) by (auto simp: square_def list_all_length)
  let ?c = "conn[u := (conn ! u)[v := True]]"
  have "mat_set conn u v True = Inr ?c" using assms(2,3) len rows by (simp add: mat_set_def)
  moreover have "square n ?c"
    using len rows assms(2,3) by (auto simp: square_def list_all_length nth_list_update)
  moreover have "?c ! u ! v" using assms(2,3) len rows by simp
  moreover have "\<forall>i<n. \<forall>j<n. conn ! i ! j \<longrightarrow> ?c ! i ! j"
    using len rows assms(2,3) by (auto simp: nth_list_update)
  ultimately show ?thesis by blast
qed

lemma set_pairs_True:
  assumes "\<forall>p \<in> set ps. fst p < n \<and> snd p < n"
  shows "square n conn \<Longrightarrow>
         \<exists>conn'. set_pairs conn ps True = Inr conn' \<and> square n conn'
           \<and> (\<forall>p \<in> set ps. conn' ! fst p ! snd p)
           \<and> (\<forall>i<n. \<forall>j<n. conn ! i ! j \<longrightarrow> conn' ! i ! j)"
  using assms
proof (induction ps arbitrary: conn)
  case Nil then show ?case by simp
next
  case (Cons p ps)
  obtain u v where p: "p = (u, v)" by (cases p)
  have uv: "u < n" "v < n" using Cons.prems(2) p by auto
  from mat_set_True[OF Cons.prems(1) uv] obtain c1 where
    c1: "mat_set conn u v True = Inr c1" "square n c1" "c1 ! u ! v"
        "\<forall>i<n. \<forall>j<n. conn ! i ! j \<longrightarrow> c1 ! i ! j" by blast
  from Cons.IH[OF c1(2)] Cons.prems(2) obtain c2 where
    c2: "set_pairs c1 ps True = Inr c2" "square n c2" "\<forall>p \<in> set ps. c2 ! fst p ! snd p"
        "\<forall>i<n. \<forall>j<n. c1 ! i ! j \<longrightarrow> c2 ! i ! j" by auto
  have "set_pairs conn (p # ps) True = Inr c2" using p c1(1) c2(1) by simp
  moreover have "\<forall>q \<in> set (p # ps). c2 ! fst q ! snd q"
    using c2(3,4) c1(3) uv p by auto
  moreover have "\<forall>i<n. \<forall>j<n. conn ! i ! j \<longrightarrow> c2 ! i ! j" using c1(4) c2(4) by blast
  ultimately show ?case using c2(2) by blast
qed

lemma row_degree_lower:
  assumes "distinct ts" "\<forall>t \<in> set ts. t < length row \<and> row ! t"
  shows "length ts \<le> length (filter (\<lambda>b. b) row)"
proof -
  have "set ts \<subseteq> {i. i < length row \<and> row ! i}" using assms(2) by auto
  then have "card (set ts) \<le> card {i. i < length row \<and> row ! i}"
    by (intro card_mono) auto
  then show ?thesis using assms(1) by (simp add: distinct_card length_filter_conv_card)
qed

lemma row_degree_mono:
  assumes "length row = length row'" "\<forall>j<length row. row ! j \<longrightarrow> row' ! j"
  shows "length (filter (\<lambda>b. b) row) \<le> length (filter (\<lambda>b. b) row')"
proof -
  have "{i. i < length row \<and> row ! i} \<subseteq> {i. i < length row' \<and> row' ! i}"
    using assms by auto
  then have "card {i. i < length row \<and> row ! i} \<le> card {i. i < length row' \<and> row' ! i}"
    by (intro card_mono) auto
  then show ?thesis by (simp add: length_filter_conv_card)
qed

lemma out_degree_mono:
  assumes "square n conn" "square n conn'" "\<forall>i<n. \<forall>j<n. conn ! i ! j \<longrightarrow> conn' ! i ! j" "v < n"
  shows "out_degree conn v \<le> out_degree conn' v"
  unfolding out_degree_def
  using assms by (intro row_degree_mono) (auto simp: square_def list_all_length)


lemma zip_bounds:
  "\<forall>x \<in> set xs. x < n \<Longrightarrow> \<forall>y \<in> set ys. y < n \<Longrightarrow> \<forall>p \<in> set (zip xs ys). fst p < (n::nat) \<and> snd p < n"
  by (auto dest: set_zip_leftD set_zip_rightD)

lemma zip_replicate_left: "zip (replicate (length ts) s) ts = map (Pair s) ts"
  by (induction ts) auto

lemma ba_grow_out_degree:
  "ba_grow directed m n conn targets rep source g = Some (Inr conn') \<Longrightarrow>
   0 < m \<Longrightarrow> uniform g \<Longrightarrow> square n conn \<Longrightarrow> distinct targets \<Longrightarrow> length targets = m \<Longrightarrow>
   \<forall>t \<in> set targets. t < source \<Longrightarrow> \<forall>r \<in> set rep. r < source \<Longrightarrow>
   \<forall>w. m \<le> w \<and> w < source \<longrightarrow> m \<le> out_degree conn w \<Longrightarrow>
   m \<le> v \<Longrightarrow> v < n \<Longrightarrow> m \<le> out_degree conn' v"
proof (induction directed m n conn targets rep source g rule: ba_grow.induct)
  case (1 directed m n conn targets rep source g)
  note run = "1.prems"(1) and m = "1.prems"(2) and ug = "1.prems"(3) and sq = "1.prems"(4)
    and dt = "1.prems"(5) and lt = "1.prems"(6) and tlt = "1.prems"(7) and rlt = "1.prems"(8)
    and deg = "1.prems"(9) and v = "1.prems"(10,11)
  show ?case
  proof (cases "source < n")
    case False
    then have "conn' = conn" using run by simp
    then show ?thesis using deg v False by auto
  next
    case True
    let ?rep = "rep @ targets @ replicate m source"
    have in1: "\<forall>p \<in> set (zip (replicate m source) targets). fst p < n \<and> snd p < n"
      using True tlt by (intro zip_bounds) auto
    from set_pairs_True[OF in1 sq] obtain c1 where
      c1: "set_pairs conn (zip (replicate m source) targets) True = Inr c1" "square n c1"
          "\<forall>p \<in> set (zip (replicate m source) targets). c1 ! fst p ! snd p"
          "\<forall>i<n. \<forall>j<n. conn ! i ! j \<longrightarrow> c1 ! i ! j" by blast
    have "\<exists>c2. (if \<not> directed then set_pairs c1 (zip targets (replicate m source)) True else Inr c1) = Inr c2
            \<and> square n c2 \<and> (\<forall>i<n. \<forall>j<n. c1 ! i ! j \<longrightarrow> c2 ! i ! j)"
    proof (cases directed)
      case True then show ?thesis using c1(2) by simp
    next
      case False
      have in2: "\<forall>p \<in> set (zip targets (replicate m source)). fst p < n \<and> snd p < n"
        using \<open>source < n\<close> tlt by (intro zip_bounds) auto
      from set_pairs_True[OF in2 c1(2)] False show ?thesis by auto
    qed
    then obtain c2 where
      c2: "(if \<not> directed then set_pairs c1 (zip targets (replicate m source)) True else Inr c1) = Inr c2"
          "square n c2" "\<forall>i<n. \<forall>j<n. c1 ! i ! j \<longrightarrow> c2 ! i ! j" by blast
    obtain targets' g' where rs: "random_subset ?rep m [] g = Some (targets', g')"
      using run True c1(1) c2(1) by (auto split: option.splits)
    have rest: "ba_grow directed m n c2 targets' ?rep (Suc source) g' = Some (Inr conn')"
      using run True c1(1) c2(1) rs by simp
    have ne: "?rep \<noteq> []" using m by simp
    from random_subset_post[OF rs] ug ne
    have post: "distinct targets'" "length targets' = m" "set targets' \<subseteq> set ?rep" "uniform g'"
      by auto
    have tlt': "\<forall>t \<in> set targets'. t < Suc source"
      using post(3) tlt rlt by (auto simp: less_Suc_eq)
    have rlt': "\<forall>r \<in> set ?rep. r < Suc source" using tlt rlt by (auto simp: less_Suc_eq)
    have row: "\<forall>t \<in> set targets. t < length (c2 ! source) \<and> c2 ! source ! t"
    proof
      fix t assume t: "t \<in> set targets"
      then have "(source, t) \<in> set (zip (replicate m source) targets)"
        using lt zip_replicate_left[of targets source] by auto
      then have "c1 ! source ! t" using c1(3) by fastforce
      moreover have "t < n" using t tlt True by auto
      moreover have "length (c2 ! source) = n"
        using c2(2) True by (auto simp: square_def list_all_length)
      ultimately show "t < length (c2 ! source) \<and> c2 ! source ! t" using c2(3) True by auto
    qed
    have dsrc: "m \<le> out_degree c2 source"
      using row_degree_lower[OF dt row] lt by (simp add: out_degree_def)
    have mono: "\<forall>i<n. \<forall>j<n. conn ! i ! j \<longrightarrow> c2 ! i ! j" using c1(4) c2(3) by blast
    have deg': "\<forall>w. m \<le> w \<and> w < Suc source \<longrightarrow> m \<le> out_degree c2 w"
    proof (intro allI impI)
      fix w assume w: "m \<le> w \<and> w < Suc source"
      show "m \<le> out_degree c2 w"
      proof (cases "w = source")
        case True then show ?thesis using dsrc by simp
      next
        case False
        then have "w < source" using w by simp
        then have "m \<le> out_degree conn w" using deg w by simp
        moreover have "out_degree conn w \<le> out_degree c2 w"
          using out_degree_mono[OF sq c2(2) mono] \<open>w < source\<close> \<open>source < n\<close> by simp
        ultimately show ?thesis by simp
      qed
    qed
    show ?thesis
      by (rule "1.IH"[OF True c1(1) c2(1) rs refl rest m post(4) c2(2) post(1,2) tlt' rlt' deg' v])
  qed
qed


lemma square_zeros: "square n (zeros n n)"
  by (simp add: square_def zeros_def list_all_length)

lemma advance_advance: "advance a (advance b g) = advance (a + b) g"
  by (simp add: advance_def add.assoc)

lemma fair_advance:
  assumes "fair L g"
  shows "fair L (advance j g)"
  unfolding fair_def
proof (intro allI conjI)
  fix n
  obtain k where k: "n + j \<le> k" "g k < 1 / real L" using assms unfolding fair_def by blast
  then have "n \<le> k - j \<and> advance j g (k - j) < 1 / real L" by (simp add: advance_def)
  then show "\<exists>k. n \<le> k \<and> advance j g k < 1 / real L" by blast
  obtain k' where k': "n + j \<le> k'" "1 - 1 / real L \<le> g k'" using assms unfolding fair_def by blast
  then have "n \<le> k' - j \<and> 1 - 1 / real L \<le> advance j g (k' - j)" by (simp add: advance_def)
  then show "\<exists>k. n \<le> k \<and> 1 - 1 / real L \<le> advance j g k" by blast
qed

lemma picks_Suc:
  "picks seq g (Suc n) = fst (choice seq g) # picks seq (snd (choice seq g)) n"
proof -
  have "[0..<Suc n] = 0 # map Suc [0..<n]" by (simp add: upt_conv_Cons map_Suc_upt del: upt_Suc)
  then show ?thesis by (simp add: picks_def choice_def advance_def comp_def del: upt_Suc)
qed

lemma random_subset_returns:
  "m \<le> card (set targets \<union> set (picks seq g n)) \<Longrightarrow> distinct targets \<Longrightarrow>
   \<exists>y. random_subset seq m targets g = Some y"
proof (induction n arbitrary: targets g)
  case 0
  then have "m \<le> length targets" by (simp add: picks_def distinct_card)
  then show ?case by (subst random_subset.simps) simp
next
  case (Suc n)
  show ?case
  proof (cases "length targets < m")
    case False
    then show ?thesis by (subst random_subset.simps) simp
  next
    case True
    obtain x g' where c: "choice seq g = (x, g')" by (cases "choice seq g")
    let ?t = "if x \<in> set targets then targets else targets @ [x]"
    have "set ?t \<union> set (picks seq g' n) = set targets \<union> set (picks seq g (Suc n))"
      using c by (auto simp: picks_Suc)
    then have "m \<le> card (set ?t \<union> set (picks seq g' n))" using Suc.prems(1) by simp
    moreover have "distinct ?t" using Suc.prems(2) by simp
    ultimately obtain y where "random_subset seq m ?t g' = Some y" using Suc.IH by blast
    then show ?thesis using True c by (subst random_subset.simps) simp
  qed
qed

lemma random_subset_advance:
  assumes "random_subset seq m targets g = Some y"
  shows "\<exists>k. snd y = advance k g"
proof (rule random_subset.raw_induct[where P = "\<lambda>seq m targets g y. \<exists>k. snd y = advance k g",
       OF _ assms])
  fix rs :: "nat list \<Rightarrow> nat \<Rightarrow> nat list \<Rightarrow> rng \<Rightarrow> (nat list \<times> rng) option"
  fix seq m targets g y
  assume IH: "\<And>seq m targets g y. rs seq m targets g = Some y \<Longrightarrow> \<exists>k. snd y = advance k g"
  assume eq: "(if length targets < m
      then (case choice seq g of (x, g') \<Rightarrow>
              rs seq m (if x \<in> set targets then targets else targets @ [x]) g')
      else Some (targets, g)) = Some y"
  show "\<exists>k. snd y = advance k g"
  proof (cases "length targets < m")
    case False
    then have "snd y = advance 0 g" using eq by (auto simp: advance_def)
    then show ?thesis by blast
  next
    case True
    then have "\<exists>t. rs seq m t (advance 1 g) = Some y" using eq by (auto simp: choice_def)
    then obtain t k where "snd y = advance k (advance 1 g)" using IH by blast
    then show ?thesis by (auto simp: advance_advance)
  qed
qed

lemma fair_hits:
  assumes "uniform g" "fair L g" "seq \<noteq> []" "length seq \<le> L"
  shows "\<exists>n. seq ! 0 \<in> set (picks seq g n) \<and> last seq \<in> set (picks seq g n)"
proof -
  let ?len = "real (length seq)"
  have len: "0 < ?len" "?len \<le> real L" using assms(3,4) by simp_all
  then have L: "0 < real L" by linarith
  obtain k1 where k1: "g k1 < 1 / real L" using assms(2) unfolding fair_def by blast
  obtain k2 where k2: "1 - 1 / real L \<le> g k2" using assms(2) unfolding fair_def by blast
  have u1: "0 \<le> g k1" and u2: "g k2 < 1" using assms(1) by (simp_all add: uniform_def)
  have "g k1 * ?len < 1"
  proof -
    have "g k1 * ?len \<le> g k1 * real L" using u1 len by (intro mult_left_mono) simp_all
    also have "\<dots> < 1" using k1 L by (simp add: field_simps)
    finally show ?thesis .
  qed
  moreover have "0 \<le> g k1 * ?len" using u1 len by simp
  ultimately have "\<lfloor>g k1 * ?len\<rfloor> = 0" by linarith
  then have i1: "seq ! nat \<lfloor>g k1 * ?len\<rfloor> = seq ! 0" by simp
  have "?len / real L \<le> 1" using len L by (simp add: field_simps)
  then have "?len - 1 \<le> (1 - 1 / real L) * ?len" by (simp add: algebra_simps)
  also have "\<dots> \<le> g k2 * ?len" using k2 len by (intro mult_right_mono) simp_all
  finally have lo: "?len - 1 \<le> g k2 * ?len" .
  have hi: "g k2 * ?len < ?len" using u2 len by simp
  have "\<lfloor>g k2 * ?len\<rfloor> = int (length seq) - 1"
    using lo hi by (intro floor_unique) simp_all
  then have "nat \<lfloor>g k2 * ?len\<rfloor> = length seq - 1" by simp
  then have i2: "seq ! nat \<lfloor>g k2 * ?len\<rfloor> = last seq" using assms(3) by (simp add: last_conv_nth)
  let ?n = "Suc (max k1 k2)"
  have "k1 < ?n" "k2 < ?n" by simp_all
  then have "seq ! nat \<lfloor>g k1 * ?len\<rfloor> \<in> set (picks seq g ?n)"
    and "seq ! nat \<lfloor>g k2 * ?len\<rfloor> \<in> set (picks seq g ?n)"
    unfolding picks_def by (auto simp del: upt_Suc)
  then show ?thesis using i1 i2 by metis
qed

lemma random_subset_two_returns:
  assumes "uniform g" "fair L g" "seq \<noteq> []" "length seq \<le> L" "seq ! 0 \<noteq> last seq"
  shows "\<exists>y. random_subset seq 2 [] g = Some y"
proof -
  from fair_hits[OF assms(1-4)] obtain n where
    n: "seq ! 0 \<in> set (picks seq g n)" "last seq \<in> set (picks seq g n)" by blast
  have "{seq ! 0, last seq} \<subseteq> set (picks seq g n)" using n by simp
  then have "card {seq ! 0, last seq} \<le> card (set (picks seq g n))"
    by (intro card_mono) simp_all
  then have "2 \<le> card (set [] \<union> set (picks seq g n))" using assms(5) by simp
  then show ?thesis by (rule random_subset_returns) simp
qed


lemma ba_grow_returns:
  "n - source = k \<Longrightarrow> uniform g \<Longrightarrow> fair L g \<Longrightarrow> square n conn \<Longrightarrow> distinct targets \<Longrightarrow>
   length targets = 2 \<Longrightarrow> \<forall>t \<in> set targets. t < source \<Longrightarrow> \<forall>r \<in> set rep. r < source \<Longrightarrow>
   length rep + 4 * (n - source) \<le> L \<Longrightarrow>
   \<exists>conn'. ba_grow d 2 n conn targets rep source g = Some (Inr conn')"
proof (induction k arbitrary: conn targets rep source g)
  case 0
  then have "\<not> source < n" by simp
  then show ?case by (subst ba_grow.simps) simp
next
  case (Suc k)
  note ug = Suc.prems(2) and fg = Suc.prems(3) and sq = Suc.prems(4) and dt = Suc.prems(5)
    and lt = Suc.prems(6) and tlt = Suc.prems(7) and rlt = Suc.prems(8) and len = Suc.prems(9)
  have src: "source < n" using Suc.prems(1) by simp
  let ?rep = "rep @ targets @ replicate 2 source"
  have in1: "\<forall>p \<in> set (zip (replicate 2 source) targets). fst p < n \<and> snd p < n"
    using src tlt by (intro zip_bounds) auto
  from set_pairs_True[OF in1 sq] obtain c1 where
    c1: "set_pairs conn (zip (replicate 2 source) targets) True = Inr c1" "square n c1" by blast
  have "\<exists>c2. (if \<not> d then set_pairs c1 (zip targets (replicate 2 source)) True else Inr c1) = Inr c2
          \<and> square n c2"
  proof (cases d)
    case True then show ?thesis using c1(2) by simp
  next
    case False
    have in2: "\<forall>p \<in> set (zip targets (replicate 2 source)). fst p < n \<and> snd p < n"
      using src tlt by (intro zip_bounds) auto
    from set_pairs_True[OF in2 c1(2)] False show ?thesis by auto
  qed
  then obtain c2 where
    c2: "(if \<not> d then set_pairs c1 (zip targets (replicate 2 source)) True else Inr c1) = Inr c2"
        "square n c2" by blast
  have ne: "?rep \<noteq> []" by simp
  have lrep: "length ?rep \<le> L" using len lt src by simp
  have "?rep ! 0 = (rep @ targets) ! 0" using lt by (simp add: nth_append)
  moreover have "(rep @ targets) ! 0 \<in> set (rep @ targets)" using lt by (intro nth_mem) simp
  ultimately have "?rep ! 0 < source" using tlt rlt by auto
  moreover have "last ?rep = source" by simp
  ultimately have diff: "?rep ! 0 \<noteq> last ?rep" by simp
  from random_subset_two_returns[OF ug fg ne lrep diff]
  obtain targets' g' where rs: "random_subset ?rep 2 [] g = Some (targets', g')" by auto
  from random_subset_post[OF rs] ug ne
  have post: "distinct targets'" "length targets' = 2" "set targets' \<subseteq> set ?rep" "uniform g'"
    by auto
  obtain j where "g' = advance j g" using random_subset_advance[OF rs] by auto
  then have fg': "fair L g'" using fg by (simp add: fair_advance)
  have tlt': "\<forall>t \<in> set targets'. t < Suc source"
    using post(3) tlt rlt by (auto simp: less_Suc_eq)
  have rlt': "\<forall>r \<in> set ?rep. r < Suc source" using tlt rlt by (auto simp: less_Suc_eq)
  have len': "length ?rep + 4 * (n - Suc source) \<le> L" using len lt src by simp
  have k: "n - Suc source = k" using Suc.prems(1) by simp
  from Suc.IH[OF k post(4) fg' c2(2) post(1,2) tlt' rlt' len']
  obtain conn' where "ba_grow d 2 n c2 targets' ?rep (Suc source) g' = Some (Inr conn')" by blast
  then have "ba_grow d 2 n conn targets rep source g = Some (Inr conn')"
    using src c1(1) c2(1) rs by (subst ba_grow.simps) simp
  then show ?case by blast
qed

lemma fair_reseed: "fair_env L e \<Longrightarrow> fair L (reseed e s)"
  by (simp add: reseed_def randint_def fair_env_def fair_advance)

lemma fair_period3: "fair 32 (\<lambda>n. if n mod 3 = 0 then 99/100 else 0)"
  unfolding fair_def
proof (intro allI conjI)
  fix n :: nat
  have "n \<le> 3 * n + 1 \<and> (if (3 * n + 1) mod 3 = 0 then 99/100 else (0::real)) < 1 / real 32"
    by simp
  then show "\<exists>k. n \<le> k \<and> (if k mod 3 = 0 then 99/100 else (0::real)) < 1 / real 32" by blast
  have "n \<le> 3 * n \<and> 1 - 1 / real 32 \<le> (if (3 * n) mod 3 = 0 then 99/100 else (0::real))"
    by simp
  then show "\<exists>k. n \<le> k \<and> 1 - 1 / real 32 \<le> (if k mod 3 = 0 then 99/100 else (0::real))" by blast
qed

lemma random_subset_constant_stream:
  assumes "random_subset seq m targets g = Some y"
  shows "\<not> (m = 2 \<and> g = (\<lambda>_. c) \<and> distinct targets
            \<and> set targets \<subseteq> {seq ! nat \<lfloor>c * real (length seq)\<rfloor>})"
proof (rule random_subset.raw_induct[where P = "\<lambda>seq m targets g y.
         \<not> (m = 2 \<and> g = (\<lambda>_. c) \<and> distinct targets
            \<and> set targets \<subseteq> {seq ! nat \<lfloor>c * real (length seq)\<rfloor>})", OF _ assms])
  fix rs :: "nat list \<Rightarrow> nat \<Rightarrow> nat list \<Rightarrow> rng \<Rightarrow> (nat list \<times> rng) option"
  fix seq m targets g y
  assume IH: "\<And>seq m targets g y. rs seq m targets g = Some y \<Longrightarrow>
         \<not> (m = 2 \<and> g = (\<lambda>_. c) \<and> distinct targets
            \<and> set targets \<subseteq> {seq ! nat \<lfloor>c * real (length seq)\<rfloor>})"
  assume eq: "(if length targets < m
      then (case choice seq g of (x, g') \<Rightarrow>
              rs seq m (if x \<in> set targets then targets else targets @ [x]) g')
      else Some (targets, g)) = Some y"
  show "\<not> (m = 2 \<and> g = (\<lambda>_. c) \<and> distinct targets
            \<and> set targets \<subseteq> {seq ! nat \<lfloor>c * real (length seq)\<rfloor>})"
  proof
    assume inv: "m = 2 \<and> g = (\<lambda>_. c) \<and> distinct targets
            \<and> set targets \<subseteq> {seq ! nat \<lfloor>c * real (length seq)\<rfloor>}"
    let ?x = "seq ! nat \<lfloor>c * real (length seq)\<rfloor>"
    have "card (set targets) \<le> card {?x}" using inv by (intro card_mono) simp_all
    then have short: "length targets < m" using inv by (simp add: distinct_card)
    have ch: "choice seq g = (?x, g)" using inv by (simp add: choice_def advance_def)
    let ?t = "if ?x \<in> set targets then targets else targets @ [?x]"
    have call: "rs seq m ?t g = Some y" using eq short ch by simp
    have "m = 2 \<and> g = (\<lambda>_. c) \<and> distinct ?t \<and> set ?t \<subseteq> {?x}" using inv by auto
    with IH[OF call] show False by blast
  qed
qed

lemma random_subset_constant_None: "random_subset seq 2 [] (\<lambda>_. c) = None"
proof (cases "random_subset seq 2 [] (\<lambda>_. c)")
  case None then show ?thesis .
next
  case (Some y)
  from random_subset_constant_stream[OF Some, of c] show ?thesis by simp
qed

lemma ScaleFreeBA_constant_draws:
  "ScaleFreeBA_build_conn \<lparr>ba_m = 2, ba_directed = d, ba_seed = s\<rparr> 10 10
     \<lparr>support_numba = False, np_seeded = (\<lambda>s n. 1/2), numba_seeded = (\<lambda>s n. 1/2),
      global_np = (\<lambda>n. 1/2)\<rparr> = None"
proof -
  have g: "reseed \<lparr>support_numba = False, np_seeded = (\<lambda>s n. 1/2), numba_seeded = (\<lambda>s n. 1/2),
      global_np = (\<lambda>n. 1/2)\<rparr> s = (\<lambda>_. 1/2)"
    by (simp add: reseed_def randint_def advance_def)
  have in1: "\<forall>p \<in> set (zip (replicate 2 (2::nat)) [0..<2]). fst p < 10 \<and> snd p < (10::nat)"
    by (intro zip_bounds) auto
  from set_pairs_True[OF in1 square_zeros] obtain c1 where
    c1: "set_pairs (zeros 10 10) (zip (replicate 2 2) [0..<2]) True = Inr c1" "square 10 c1" by blast
  have "\<exists>c2. (if \<not> d then set_pairs c1 (zip [0..<2] (replicate 2 2)) True else Inr c1) = Inr c2"
  proof (cases d)
    case True then show ?thesis by simp
  next
    case False
    have in2: "\<forall>p \<in> set (zip [0..<2] (replicate 2 (2::nat))). fst p < 10 \<and> snd p < (10::nat)"
      by (intro zip_bounds) auto
    from set_pairs_True[OF in2 c1(2)] False show ?thesis by auto
  qed
  then obtain c2 where
    c2: "(if \<not> d then set_pairs c1 (zip [0..<2] (replicate 2 2)) True else Inr c1) = Inr c2" by blast
  have "ba_grow d 2 10 (zeros 10 10) [0..<2] [] 2 (\<lambda>_. 1/2) = None"
    using c1(1) c2 by (subst ba_grow.simps) (simp add: random_subset_constant_None)
  then show ?thesis by (simp add: ScaleFreeBA_build_conn_def g)
qed

text \<open>
  C7: for \<open>ScaleFreeBA\<close> with \<open>m = 2\<close> over 10 nodes, directed or not, and every
  generator with draws in \<open>[0, 1)\<close>: every node \<open>v \<ge> 2\<close> of a returned matrix has
  in-degree plus out-degree at least 2, because the growth step of source \<open>v\<close> writes row
  \<open>v\<close> at \<open>m\<close> distinct earlier nodes and no later step clears an entry; and the build
  does return a matrix whenever the generators are fair (their draws keep visiting both
  ends of the unit interval), since every call of \<^verbatim>\<open>_random_subset\<close> then meets two
  distinct nodes after finitely many retries. Without fairness the sampler may retry
  forever: on constant draws the build never returns (lemma
  \<open>ScaleFreeBA_constant_draws\<close>). In the instance that follows the first two draws of
  every sampler call pick node 0 twice, so each call retries before it returns.
\<close>

theorem C7_ScaleFreeBA_degree:
  assumes "uniform_env e"
  shows "(fair_env 32 e \<longrightarrow>
            (\<exists>conn. ScaleFreeBA_build_conn \<lparr>ba_m = 2, ba_directed = d, ba_seed = s\<rparr> 10 10 e
                     = Some (Inr (MAT conn))))
         \<and> (\<forall>conn v. ScaleFreeBA_build_conn \<lparr>ba_m = 2, ba_directed = d, ba_seed = s\<rparr> 10 10 e
                       = Some (Inr (MAT conn)) \<and> 2 \<le> v \<and> v < 10
                  \<longrightarrow> 2 \<le> in_degree conn v + out_degree conn v)"
proof (intro conjI impI allI)
  assume f: "fair_env 32 e"
  have "\<exists>conn'. ba_grow d 2 10 (zeros 10 10) [0..<2] [] 2 (reseed e s) = Some (Inr conn')"
    by (rule ba_grow_returns[OF refl uniform_reseed[OF assms] fair_reseed[OF f] square_zeros])
       auto
  then show "\<exists>conn. ScaleFreeBA_build_conn \<lparr>ba_m = 2, ba_directed = d, ba_seed = s\<rparr> 10 10 e
                     = Some (Inr (MAT conn))"
    by (auto simp: ScaleFreeBA_build_conn_def)
next
  fix conn :: mat and v :: nat
  assume a: "ScaleFreeBA_build_conn \<lparr>ba_m = 2, ba_directed = d, ba_seed = s\<rparr> 10 10 e
                       = Some (Inr (MAT conn)) \<and> 2 \<le> v \<and> v < 10"
  then have run: "ba_grow d 2 10 (zeros 10 10) [0..<2] [] 2 (reseed e s) = Some (Inr conn)"
    by (auto simp: ScaleFreeBA_build_conn_def split: option.splits sum.splits)
  have "2 \<le> out_degree conn v"
    by (rule ba_grow_out_degree[OF run _ uniform_reseed[OF assms] square_zeros])
       (use a in auto)
  then show "2 \<le> in_degree conn v + out_degree conn v" by simp
qed

theorem C7_ScaleFreeBA_degree_witness:
  "uniform_env \<lparr>support_numba = False, np_seeded = (\<lambda>s n. if n mod 3 = 0 then 99/100 else 0),
      numba_seeded = (\<lambda>s n. if n mod 3 = 0 then 99/100 else 0), global_np = (\<lambda>n. 1/2)\<rparr>
   \<and> fair_env 32 \<lparr>support_numba = False, np_seeded = (\<lambda>s n. if n mod 3 = 0 then 99/100 else 0),
      numba_seeded = (\<lambda>s n. if n mod 3 = 0 then 99/100 else 0), global_np = (\<lambda>n. 1/2)\<rparr>
   \<and> ScaleFreeBA_build_conn \<lparr>ba_m = 2, ba_directed = True, ba_seed = 0\<rparr> 10 10
       \<lparr>support_numba = False, np_seeded = (\<lambda>s n. if n mod 3 = 0 then 99/100 else 0),
      numba_seeded = (\<lambda>s n. if n mod 3 = 0 then 99/100 else 0), global_np = (\<lambda>n. 1/2)\<rparr>
     = Some (Inr (MAT
      [[False, False, False, False, False, False, False, False, False, False],
       [False, False, False, False, False, False, False, False, False, False],
       [True, True, False, False, False, False, False, False, False, False],
       [True, False, True, False, False, False, False, False, False, False],
       [True, False, False, True, False, False, False, False, False, False],
       [True, False, False, False, True, False, False, False, False, False],
       [True, False, False, False, False, True, False, False, False, False],
       [True, False, False, False, False, False, True, False, False, False],
       [True, False, False, False, False, False, False, True, False, False],
       [True, False, False, False, False, False, False, False, True, False]]))
   \<and> (2::nat) \<le> 5 \<and> (5::nat) < 10
   \<and> 2 \<le> in_degree
      [[False, False, False, False, False, False, False, False, False, False],
       [False, False, False, False, False, False, False, False, False, False],
       [True, True, False, False, False, False, False, False, False, False],
       [True, False, True, False, False, False, False, False, False, False],
       [True, False, False, True, False, False, False, False, False, False],
       [True, False, False, False, True, False, False, False, False, False],
       [True, False, False, False, False, True, False, False, False, False],
       [True, False, False, False, False, False, True, False, False, False],
       [True, False, False, False, False, False, False, True, False, False],
       [True, False, False, False, False, False, False, False, True, False]] 5
     + out_degree
      [[False, False, False, False, False, False, False, False, False, False],
       [False, False, False, False, False, False, False, False, False, False],
       [True, True, False, False, False, False, False, False, False, False],
       [True, False, True, False, False, False, False, False, False, False],
       [True, False, False, True, False, False, False, False, False, False],
       [True, False, False, False, True, False, False, False, False, False],
       [True, False, False, False, False, True, False, False, False, False],
       [True, False, False, False, False, False, True, False, False, False],
       [True, False, False, False, False, False, False, True, False, False],
       [True, False, False, False, False, False, False, False, True, False]] 5"
proof -
  have u: "uniform_env \<lparr>support_numba = False, np_seeded = (\<lambda>s n. if n mod 3 = 0 then 99/100 else 0),
      numba_seeded = (\<lambda>s n. if n mod 3 = 0 then 99/100 else 0), global_np = (\<lambda>n. 1/2)\<rparr>"
    by (simp add: uniform_env_def uniform_def)
  have f: "fair_env 32 \<lparr>support_numba = False, np_seeded = (\<lambda>s n. if n mod 3 = 0 then 99/100 else 0),
      numba_seeded = (\<lambda>s n. if n mod 3 = 0 then 99/100 else 0), global_np = (\<lambda>n. 1/2)\<rparr>"
    by (simp add: fair_env_def fair_period3)
  have run: "ScaleFreeBA_build_conn \<lparr>ba_m = 2, ba_directed = True, ba_seed = 0\<rparr> 10 10
       \<lparr>support_numba = False, np_seeded = (\<lambda>s n. if n mod 3 = 0 then 99/100 else 0),
      numba_seeded = (\<lambda>s n. if n mod 3 = 0 then 99/100 else 0), global_np = (\<lambda>n. 1/2)\<rparr>
     = Some (Inr (MAT
      [[False, False, False, False, False, False, False, False, False, False],
       [False, False, False, False, False, False, False, False, False, False],
       [True, True, False, False, False, False, False, False, False, False],
       [True, False, True, False, False, False, False, False, False, False],
       [True, False, False, True, False, False, False, False, False, False],
       [True, False, False, False, True, False, False, False, False, False],
       [True, False, False, False, False, True, False, False, False, False],
       [True, False, False, False, False, False, True, False, False, False],
       [True, False, False, False, False, False, False, True, False, False],
       [True, False, False, False, False, False, False, False, True, False]]))"
    by code_simp
  have v: "(2::nat) \<le> 5" "(5::nat) < 10" by simp_all
  have "2 \<le> in_degree
      [[False, False, False, False, False, False, False, False, False, False],
       [False, False, False, False, False, False, False, False, False, False],
       [True, True, False, False, False, False, False, False, False, False],
       [True, False, True, False, False, False, False, False, False, False],
       [True, False, False, True, False, False, False, False, False, False],
       [True, False, False, False, True, False, False, False, False, False],
       [True, False, False, False, False, True, False, False, False, False],
       [True, False, False, False, False, False, True, False, False, False],
       [True, False, False, False, False, False, False, True, False, False],
       [True, False, False, False, False, False, False, False, True, False]] 5
     + out_degree
      [[False, False, False, False, False, False, False, False, False, False],
       [False, False, False, False, False, False, False, False, False, False],
       [True, True, False, False, False, False, False, False, False, False],
       [True, False, True, False, False, False, False, False, False, False],
       [True, False, False, True, False, False, False, False, False, False],
       [True, False, False, False, True, False, False, False, False, False],
       [True, False, False, False, False, True, False, False, False, False],
       [True, False, False, False, False, False, True, False, False, False],
       [True, False, False, False, False, False, False, True, False, False],
       [True, False, False, False, False, False, False, False, True, False]] 5"
    using C7_ScaleFreeBA_degree [OF u, of True 0] run v by blast
  with u f run v show ?thesis by (intro conjI)
qed

section \<open>Properties of GaussianProb\<close>

lemma fill_diagonal_False:
  assumes "i < length m"
  shows "length (fill_diagonal m False) = length m"
    and "length (fill_diagonal m False ! i) = length (m ! i)"
    and "i < length (m ! i) \<Longrightarrow> \<not> fill_diagonal m False ! i ! i"
  using assms by (simp_all add: fill_diagonal_def)

lemma GaussianProb_returns:
  assumes "gp_encoding_values c = EncNone" "pre_size \<noteq> []" "0 < prod_list pre_size"
  shows "\<exists>conn. GaussianProb_build_conn c pre_size e = Inr (MAT conn)"
  using assms by (simp add: GaussianProb_build_conn_def value_ranges_def Let_def)

text \<open>
  C8: for every \<open>GaussianProb\<close> connector with \<open>include_self = False\<close>, every population
  shape, seed and generator, the matrix \<open>build_conn\<close> returns is square of side
  \<open>pre_num\<close> and false at every diagonal entry \<open>[i][i]\<close>: \<^verbatim>\<open>np.fill_diagonal\<close> runs
  after the threshold. (The builder returns for every non-empty population with the
  default encoding, lemma \<open>GaussianProb_returns\<close>.)
\<close>

theorem C8_GaussianProb_diagonal:
  assumes "\<not> gp_include_self c"
    and "GaussianProb_build_conn c pre_size e = Inr (MAT conn)"
    and "i < prod_list pre_size"
  shows "length conn = prod_list pre_size \<and> length (conn ! i) = prod_list pre_size
         \<and> \<not> conn ! i ! i"
proof -
  let ?n = "prod_list pre_size"
  obtain cm where cm: "conn = fill_diagonal cm False" "length cm = ?n" "length (cm ! i) = ?n"
    using assms
    by (auto simp: GaussianProb_build_conn_def Let_def split: sum.splits if_splits)
  show ?thesis using cm assms(3) fill_diagonal_False[of i cm] by simp
qed

theorem C8_GaussianProb_diagonal_witness:
  "\<not> gp_include_self 
      \<lparr>gp_sigma = 1, gp_encoding_values = EncNone, gp_normalize = False,
        gp_include_self = False, gp_periodic_boundary = False, gp_seed = 0\<rparr>
   \<and> GaussianProb_build_conn 
      \<lparr>gp_sigma = 1, gp_encoding_values = EncNone, gp_normalize = False,
        gp_include_self = False, gp_periodic_boundary = False, gp_seed = 0\<rparr> [2] 
      \<lparr>support_numba = False, np_seeded = (\<lambda>s n. 0), numba_seeded = (\<lambda>s n. 1/2),
        global_np = (\<lambda>n. 1/2)\<rparr> = Inr (MAT [[False, True], [True, False]])
   \<and> (1::nat) < prod_list [2]
   \<and> length [[False, True], [True, False]] = prod_list [2::nat]
   \<and> length ([[False, True], [True, False]] ! 1) = prod_list [2::nat]
   \<and> \<not> [[False, True], [True, False]] ! 1 ! 1"
proof -
  have a: "\<not> gp_include_self 
      \<lparr>gp_sigma = 1, gp_encoding_values = EncNone, gp_normalize = False,
        gp_include_self = False, gp_periodic_boundary = False, gp_seed = 0\<rparr>" by simp
  have b: "GaussianProb_build_conn 
      \<lparr>gp_sigma = 1, gp_encoding_values = EncNone, gp_normalize = False,
        gp_include_self = False, gp_periodic_boundary = False, gp_seed = 0\<rparr> [2] 
      \<lparr>support_numba = False, np_seeded = (\<lambda>s n. 0), numba_seeded = (\<lambda>s n. 1/2),
        global_np = (\<lambda>n. 1/2)\<rparr> = Inr (MAT [[False, True], [True, False]])"
    by (simp add: GaussianProb_build_conn_def value_ranges_def Let_def random_n_def
          fill_diagonal_def gp_prob_def upt_rec)
  have c: "(1::nat) < prod_list [2]" by simp
  from C8_GaussianProb_diagonal [OF a b c] a b c show ?thesis by (intro conjI) simp_all
qed

end
